theory Spec2Isabelle
  imports Main
begin

section \<open>The block list of \<open>memory_manager.py\<close>\<close>

text \<open>
  A block is the dictionary \<^verbatim>\<open>{'start': int, 'size': int, 'status': str, 'pid': int or None}\<close>.
  The code only ever writes the two status strings \<^verbatim>\<open>'free'\<close> and \<^verbatim>\<open>'occupied'\<close>, and every
  test on a status compares with one of them, so the status is a two-valued datatype.
  Python integers are unbounded, hence \<open>int\<close>. The field \<^verbatim>\<open>size\<close> is called \<open>size_b\<close>
  because \<open>size\<close> is a constant of HOL.
\<close>

datatype block_status = Free | Occupied

record block =
  start :: int
  size_b :: int
  status :: block_status
  pid :: "int option"

text \<open>
  The class \<^verbatim>\<open>MemoryManager\<close>. The attribute \<^verbatim>\<open>current_strategy\<close> is written by the command
  loop only; no method of the class reads it.
\<close>

record manager =
  total_memory_size :: int
  memory :: "block list"
  current_strategy :: "string option"

text \<open>
  \<^verbatim>\<open>__init__\<close>: raises \<^verbatim>\<open>ValueError\<close> (here \<open>None\<close>) when the size is not positive, and
  otherwise starts with one free block that spans the whole memory.
\<close>

definition MemoryManager :: "int \<Rightarrow> manager option" where
  "MemoryManager n =
     (if n \<le> 0 then None
      else Some \<lparr>total_memory_size = n,
                 memory = [\<lparr>start = 0, size_b = n, status = Free, pid = None\<rparr>],
                 current_strategy = None\<rparr>)"

subsection \<open>Searching for a free block\<close>

text \<open>
  \<^verbatim>\<open>_find_block_first_fit\<close>: the \<^verbatim>\<open>for i, block in enumerate(self.memory)\<close> loop, with the
  index carried along; \<open>None\<close> stands for the pair \<^verbatim>\<open>(None, None)\<close>.
\<close>

fun first_fit_loop :: "nat \<Rightarrow> block list \<Rightarrow> int \<Rightarrow> (nat \<times> block) option" where
  "first_fit_loop i [] size_required = None"
| "first_fit_loop i (b # bs) size_required =
     (if status b = Free \<and> size_b b \<ge> size_required then Some (i, b)
      else first_fit_loop (Suc i) bs size_required)"

definition find_block_first_fit :: "block list \<Rightarrow> int \<Rightarrow> (nat \<times> block) option" where
  "find_block_first_fit mem size_required = first_fit_loop 0 mem size_required"

text \<open>
  \<^verbatim>\<open>_find_block_best_fit\<close>: the loop state is \<^verbatim>\<open>(best_fit_index, min_fragmentation)\<close>.
  \<^verbatim>\<open>min_fragmentation\<close> starts as \<^verbatim>\<open>float('inf')\<close>, written \<open>None\<close> here, so the test
  \<^verbatim>\<open>fragmentation < min_fragmentation\<close> is \<open>frag_less\<close>.
\<close>

fun frag_less :: "int \<Rightarrow> int option \<Rightarrow> bool" where
  "frag_less f None = True"
| "frag_less f (Some m) = (f < m)"

fun best_fit_loop ::
  "nat \<Rightarrow> block list \<Rightarrow> int \<Rightarrow> nat option \<times> int option \<Rightarrow> nat option \<times> int option" where
  "best_fit_loop i [] size_required acc = acc"
| "best_fit_loop i (b # bs) size_required (best_fit_index, min_fragmentation) =
     (if status b = Free \<and> size_b b \<ge> size_required then
        (if frag_less (size_b b - size_required) min_fragmentation
         then best_fit_loop (Suc i) bs size_required (Some i, Some (size_b b - size_required))
         else best_fit_loop (Suc i) bs size_required (best_fit_index, min_fragmentation))
      else best_fit_loop (Suc i) bs size_required (best_fit_index, min_fragmentation))"

definition find_block_best_fit :: "block list \<Rightarrow> int \<Rightarrow> (nat \<times> block) option" where
  "find_block_best_fit mem size_required =
     (case fst (best_fit_loop 0 mem size_required (None, None)) of
        None \<Rightarrow> None
      | Some best_fit_index \<Rightarrow> Some (best_fit_index, mem ! best_fit_index))"

text \<open>
  The dictionary \<^verbatim>\<open>{'first_fit': ..., 'best_fit': ...}.get(strategy)\<close> of \<^verbatim>\<open>allocate_memory\<close>.
\<close>

definition find_block_func ::
  "string \<Rightarrow> (block list \<Rightarrow> int \<Rightarrow> (nat \<times> block) option) option" where
  "find_block_func strategy =
     (if strategy = ''first_fit'' then Some find_block_first_fit
      else if strategy = ''best_fit'' then Some find_block_best_fit
      else None)"

subsection \<open>Allocation\<close>

text \<open>
  \<^verbatim>\<open>allocate_memory\<close> returns the start address, or \<open>None\<close>, together with the manager as the
  call leaves it. The exact fit writes into the dictionary that sits at \<^verbatim>\<open>block_index\<close>; the
  split is the slice assignment \<^verbatim>\<open>self.memory[block_index:block_index+1] = [...]\<close>.
\<close>

definition allocate_memory :: "manager \<Rightarrow> int \<Rightarrow> int \<Rightarrow> string \<Rightarrow> int option \<times> manager" where
  "allocate_memory mgr process_id size_required strategy =
     (if size_required \<le> 0 then (None, mgr)
      else case find_block_func strategy of
        None \<Rightarrow> (None, mgr)
      | Some find_block \<Rightarrow>
         (case find_block (memory mgr) size_required of
            None \<Rightarrow> (None, mgr)
          | Some (block_index, blk) \<Rightarrow>
              if size_b blk = size_required then
                (Some (start blk),
                 mgr\<lparr>memory := (memory mgr)
                    [block_index := blk\<lparr>status := Occupied, pid := Some process_id\<rparr>]\<rparr>)
              else
                (Some (start blk),
                 mgr\<lparr>memory := take block_index (memory mgr) @
                    [\<lparr>start = start blk, size_b = size_required,
                      status = Occupied, pid = Some process_id\<rparr>,
                     \<lparr>start = start blk + size_required, size_b = size_b blk - size_required,
                      status = Free, pid = None\<rparr>] @
                    drop (Suc block_index) (memory mgr)\<rparr>)))"

subsection \<open>Coalescing and deallocation\<close>

text \<open>
  The inner \<^verbatim>\<open>while j < len(self.memory) and self.memory[j]['status'] == 'free'\<close> loop of
  \<^verbatim>\<open>_coalesce_free_blocks\<close>: it adds the sizes of the free blocks that follow to the copy
  \<^verbatim>\<open>merged_block\<close> and returns it with the blocks from index \<^verbatim>\<open>j\<close> on.
\<close>

fun merge_run :: "block \<Rightarrow> block list \<Rightarrow> block \<times> block list" where
  "merge_run merged_block [] = (merged_block, [])"
| "merge_run merged_block (b # bs) =
     (if status b = Free
      then merge_run (merged_block\<lparr>size_b := size_b merged_block + size_b b\<rparr>) bs
      else (merged_block, b # bs))"

text \<open>The outer \<^verbatim>\<open>while i < len(self.memory)\<close> loop; the argument is the list from \<^verbatim>\<open>i\<close> on.\<close>

function coalesce_scan :: "block list \<Rightarrow> block list" where
  "coalesce_scan [] = []"
| "coalesce_scan (b # bs) =
     (if status b = Free
      then fst (merge_run b bs) # coalesce_scan (snd (merge_run b bs))
      else b # coalesce_scan bs)"
  by pat_completeness auto
termination
proof (relation "measure length")
  fix b :: block and bs :: "block list"
  have "length (snd (merge_run mb xs)) \<le> length xs" for mb xs
    by (induction xs arbitrary: mb) (auto intro: le_SucI)
  then show "(snd (merge_run b bs), b # bs) \<in> measure length"
    by (simp add: less_Suc_eq_le)
qed simp_all

text \<open>
  \<^verbatim>\<open>_coalesce_free_blocks\<close>: the scan, then \<^verbatim>\<open>self.memory.sort(key=lambda block: block['start'])\<close>,
  a stable sort, as \<open>sort_key\<close> is.
\<close>

definition coalesce_free_blocks :: "manager \<Rightarrow> manager" where
  "coalesce_free_blocks mgr = mgr\<lparr>memory := sort_key start (coalesce_scan (memory mgr))\<rparr>"

text \<open>The search loop of \<^verbatim>\<open>deallocate_memory\<close>, which stops at the first match.\<close>

fun find_owner_loop :: "nat \<Rightarrow> block list \<Rightarrow> int \<Rightarrow> nat option" where
  "find_owner_loop i [] process_id = None"
| "find_owner_loop i (b # bs) process_id =
     (if status b = Occupied \<and> pid b = Some process_id then Some i
      else find_owner_loop (Suc i) bs process_id)"

definition deallocate_memory :: "manager \<Rightarrow> int \<Rightarrow> bool \<times> manager" where
  "deallocate_memory mgr process_id =
     (case find_owner_loop 0 (memory mgr) process_id of
        None \<Rightarrow> (False, mgr)
      | Some found_block_index \<Rightarrow>
          (True, coalesce_free_blocks
             (mgr\<lparr>memory := (memory mgr)
                [found_block_index :=
                   (memory mgr ! found_block_index)\<lparr>status := Free, pid := None\<rparr>]\<rparr>)))"

subsection \<open>Sequences of calls\<close>

text \<open>
  A caller issues \<^verbatim>\<open>allocate_memory\<close> and \<^verbatim>\<open>deallocate_memory\<close> calls one after the other on the
  same manager, with any arguments; \<open>run\<close> is the manager after such a sequence.
\<close>

datatype request = Allocate int int string | Deallocate int

fun apply_request :: "manager \<Rightarrow> request \<Rightarrow> manager" where
  "apply_request mgr (Allocate process_id size_required strategy) =
     snd (allocate_memory mgr process_id size_required strategy)"
| "apply_request mgr (Deallocate process_id) = snd (deallocate_memory mgr process_id)"

definition run :: "manager \<Rightarrow> request list \<Rightarrow> manager" where
  "run mgr reqs = foldl apply_request mgr reqs"

subsection \<open>Properties of a block list\<close>

text \<open>A block that a request of \<open>size_required\<close> units can be placed in.\<close>

definition fits :: "int \<Rightarrow> block \<Rightarrow> bool" where
  "fits size_required b \<longleftrightarrow> status b = Free \<and> size_required \<le> size_b b"

text \<open>A block that is occupied by the process \<open>process_id\<close>.\<close>

definition held_by :: "int \<Rightarrow> block \<Rightarrow> bool" where
  "held_by process_id b \<longleftrightarrow> status b = Occupied \<and> pid b = Some process_id"

text \<open>Each block ends where the next one starts.\<close>

fun gapless :: "block list \<Rightarrow> bool" where
  "gapless (b # c # bs) = (start b + size_b b = start c \<and> gapless (c # bs))"
| "gapless bs = True"

text \<open>No two neighbours are both free.\<close>

fun no_adjacent_free :: "block list \<Rightarrow> bool" where
  "no_adjacent_free (b # c # bs) =
     (\<not> (status b = Free \<and> status c = Free) \<and> no_adjacent_free (c # bs))"
| "no_adjacent_free bs = True"

text \<open>
  The blocks tile the addresses from \<open>a\<close> upwards, each of positive size. This is the
  invariant the proofs carry; the properties above follow from it.
\<close>

fun tiles_from :: "int \<Rightarrow> block list \<Rightarrow> bool" where
  "tiles_from a [] = True"
| "tiles_from a (b # bs) = (start b = a \<and> 0 < size_b b \<and> tiles_from (a + size_b b) bs)"

text \<open>
  What every state that the calls can produce satisfies: the total is positive, the blocks
  tile the addresses from 0 and their sizes add up to the total, no two neighbours are
  free, and a free block has no owner.
\<close>

definition consistent :: "manager \<Rightarrow> bool" where
  "consistent mgr \<longleftrightarrow>
     0 < total_memory_size mgr \<and>
     tiles_from 0 (memory mgr) \<and>
     sum_list (map size_b (memory mgr)) = total_memory_size mgr \<and>
     no_adjacent_free (memory mgr) \<and>
     (\<forall>b\<in>set (memory mgr). status b = Free \<longrightarrow> pid b = None)"

text \<open>The number of blocks that \<open>process_id\<close> occupies.\<close>

definition owner_count :: "int \<Rightarrow> block list \<Rightarrow> nat" where
  "owner_count process_id mem = length (filter (held_by process_id) mem)"

text \<open>
  A sequence of calls in which no allocation succeeds for a process that holds a block at
  that moment, as is the case when every allocation is made for a new identifier.
\<close>

fun one_block_each :: "manager \<Rightarrow> request list \<Rightarrow> bool" where
  "one_block_each mgr [] = True"
| "one_block_each mgr (Allocate process_id size_required strategy # reqs) =
     ((fst (allocate_memory mgr process_id size_required strategy) = None \<or>
       owner_count process_id (memory mgr) = 0) \<and>
      one_block_each (apply_request mgr (Allocate process_id size_required strategy)) reqs)"
| "one_block_each mgr (Deallocate process_id # reqs) =
     one_block_each (apply_request mgr (Deallocate process_id)) reqs"

subsection \<open>Example states\<close>

text \<open>A manager of 300 units before any call.\<close>

definition scenario_E :: manager where
  "scenario_E = \<lparr>total_memory_size = 300,
     memory = [\<lparr>start = 0, size_b = 300, status = Free, pid = None\<rparr>],
     current_strategy = None\<rparr>"

text \<open>
  A state with free blocks of 50, 20 and 80 units, in this order, that two occupied blocks
  keep apart.
\<close>

definition scenario_F :: manager where
  "scenario_F = \<lparr>total_memory_size = 170, memory =
     [\<lparr>start = 0, size_b = 50, status = Free, pid = None\<rparr>,
      \<lparr>start = 50, size_b = 10, status = Occupied, pid = Some 1\<rparr>,
      \<lparr>start = 60, size_b = 20, status = Free, pid = None\<rparr>,
      \<lparr>start = 80, size_b = 10, status = Occupied, pid = Some 2\<rparr>,
      \<lparr>start = 90, size_b = 80, status = Free, pid = None\<rparr>], current_strategy = None\<rparr>"

text \<open>
  A list in address order in which the first two blocks are free neighbours.
\<close>

definition fragmented :: manager where
  "fragmented = \<lparr>total_memory_size = 200, memory =
     [\<lparr>start = 0, size_b = 40, status = Free, pid = None\<rparr>,
      \<lparr>start = 40, size_b = 60, status = Free, pid = None\<rparr>,
      \<lparr>start = 100, size_b = 50, status = Occupied, pid = Some 1\<rparr>,
      \<lparr>start = 150, size_b = 50, status = Free, pid = None\<rparr>], current_strategy = None\<rparr>"


text \<open>
  The manager of 300 units after processes 1 and 2 have taken 100 units each.
\<close>

definition two_owners :: manager where
  "two_owners = run scenario_E [Allocate 1 100 ''first_fit'', Allocate 2 100 ''first_fit'']"

text \<open>
  Processes 3, 2 and 1 take 100 units each and 3 releases its block: the free block lies
  below the block of process 1.
\<close>

definition hole_below :: manager where
  "hole_below = run scenario_E
     [Allocate 3 100 ''first_fit'', Allocate 2 100 ''first_fit'', Allocate 1 100 ''first_fit'',
      Deallocate 3]"

section \<open>Lemmas\<close>

subsection \<open>What the two searches return\<close>

lemma first_fit_loop_None:
  "first_fit_loop k m sz = None \<longleftrightarrow> (\<forall>b\<in>set m. \<not> fits sz b)"
  by (induction m arbitrary: k) (auto simp: fits_def)

lemma first_fit_loop_Some:
  "first_fit_loop k m sz = Some (i, b) \<Longrightarrow>
     \<exists>j<length m. i = k + j \<and> b = m ! j \<and> fits sz b \<and> (\<forall>l<j. \<not> fits sz (m ! l))"
proof (induction m arbitrary: k)
  case Nil
  then show ?case by simp
next
  case (Cons a m)
  show ?case
  proof (cases "fits sz a")
    case True
    with Cons.prems show ?thesis by (auto simp: fits_def)
  next
    case False
    with Cons.prems have "first_fit_loop (Suc k) m sz = Some (i, b)"
      by (auto simp: fits_def)
    from Cons.IH[OF this] obtain j where j: "j < length m" "i = Suc k + j" "b = m ! j"
      "fits sz b" "\<forall>l<j. \<not> fits sz (m ! l)" by blast
    have "\<forall>l<Suc j. \<not> fits sz ((a # m) ! l)"
      using False j(5) by (auto simp: less_Suc_eq_0_disj)
    with j show ?thesis by (intro exI[of _ "Suc j"]) auto
  qed
qed

lemma best_fit_loop_spec:
  "best_fit_loop k m sz (bi, mf) = (ri, rf) \<Longrightarrow>
    ((\<forall>b\<in>set m. fits sz b \<longrightarrow> \<not> frag_less (size_b b - sz) mf) \<and> ri = bi \<and> rf = mf) \<or>
    (\<exists>j<length m. ri = Some (k + j) \<and> rf = Some (size_b (m ! j) - sz) \<and> fits sz (m ! j) \<and>
        frag_less (size_b (m ! j) - sz) mf \<and>
        (\<forall>l<length m. fits sz (m ! l) \<longrightarrow> size_b (m ! j) \<le> size_b (m ! l)) \<and>
        (\<forall>l<j. fits sz (m ! l) \<longrightarrow> size_b (m ! j) < size_b (m ! l)))"
proof (induction m arbitrary: k bi mf)
  case Nil
  then show ?case by simp
next
  case (Cons a m)
  let ?fa = "size_b a - sz"
  consider (take) "fits sz a" "frag_less ?fa mf"
    | (keep) "fits sz a" "\<not> frag_less ?fa mf"
    | (skip) "\<not> fits sz a" by blast
  then show ?case
  proof cases
    case take
    with Cons.prems have run: "best_fit_loop (Suc k) m sz (Some k, Some ?fa) = (ri, rf)"
      by (simp add: fits_def)
    from Cons.IH[OF run] show ?thesis
    proof (elim disjE conjE exE)
      assume none: "\<forall>b\<in>set m. fits sz b \<longrightarrow> \<not> frag_less (size_b b - sz) (Some ?fa)"
        and r: "ri = Some k" "rf = Some ?fa"
      have "\<forall>l<length (a # m). fits sz ((a # m) ! l) \<longrightarrow> size_b a \<le> size_b ((a # m) ! l)"
        using none by (auto simp: less_Suc_eq_0_disj)
      with r take have "0 < length (a # m) \<and> ri = Some (k + 0) \<and>
          rf = Some (size_b ((a # m) ! 0) - sz) \<and> fits sz ((a # m) ! 0) \<and>
          frag_less (size_b ((a # m) ! 0) - sz) mf \<and>
          (\<forall>l<length (a # m). fits sz ((a # m) ! l) \<longrightarrow> size_b ((a # m) ! 0) \<le> size_b ((a # m) ! l)) \<and>
          (\<forall>l<0. fits sz ((a # m) ! l) \<longrightarrow> size_b ((a # m) ! 0) < size_b ((a # m) ! l))"
        by simp
      then show ?thesis by blast
    next
      fix j
      assume j: "j < length m" "ri = Some (Suc k + j)" "rf = Some (size_b (m ! j) - sz)"
        "fits sz (m ! j)" "frag_less (size_b (m ! j) - sz) (Some ?fa)"
        "\<forall>l<length m. fits sz (m ! l) \<longrightarrow> size_b (m ! j) \<le> size_b (m ! l)"
        "\<forall>l<j. fits sz (m ! l) \<longrightarrow> size_b (m ! j) < size_b (m ! l)"
      have lt: "size_b (m ! j) < size_b a" using j(5) by simp
      have fl: "frag_less (size_b (m ! j) - sz) mf"
        using take(2) lt by (cases mf) auto
      have "Suc j < length (a # m) \<and> ri = Some (k + Suc j) \<and>
          rf = Some (size_b ((a # m) ! Suc j) - sz) \<and> fits sz ((a # m) ! Suc j) \<and>
          frag_less (size_b ((a # m) ! Suc j) - sz) mf \<and>
          (\<forall>l<length (a # m). fits sz ((a # m) ! l) \<longrightarrow> size_b ((a # m) ! Suc j) \<le> size_b ((a # m) ! l)) \<and>
          (\<forall>l<Suc j. fits sz ((a # m) ! l) \<longrightarrow> size_b ((a # m) ! Suc j) < size_b ((a # m) ! l))"
        using j lt fl by (auto simp: less_Suc_eq_0_disj)
      then show ?thesis by blast
    qed
  next
    case keep
    with Cons.prems have run: "best_fit_loop (Suc k) m sz (bi, mf) = (ri, rf)"
      by (simp add: fits_def)
    from Cons.IH[OF run] show ?thesis
    proof (elim disjE conjE exE)
      assume "\<forall>b\<in>set m. fits sz b \<longrightarrow> \<not> frag_less (size_b b - sz) mf" "ri = bi" "rf = mf"
      with keep show ?thesis by simp
    next
      fix j
      assume j: "j < length m" "ri = Some (Suc k + j)" "rf = Some (size_b (m ! j) - sz)"
        "fits sz (m ! j)" "frag_less (size_b (m ! j) - sz) mf"
        "\<forall>l<length m. fits sz (m ! l) \<longrightarrow> size_b (m ! j) \<le> size_b (m ! l)"
        "\<forall>l<j. fits sz (m ! l) \<longrightarrow> size_b (m ! j) < size_b (m ! l)"
      have lt: "size_b (m ! j) < size_b a" using j(5) keep(2) by (cases mf) auto
      have "Suc j < length (a # m) \<and> ri = Some (k + Suc j) \<and>
          rf = Some (size_b ((a # m) ! Suc j) - sz) \<and> fits sz ((a # m) ! Suc j) \<and>
          frag_less (size_b ((a # m) ! Suc j) - sz) mf \<and>
          (\<forall>l<length (a # m). fits sz ((a # m) ! l) \<longrightarrow> size_b ((a # m) ! Suc j) \<le> size_b ((a # m) ! l)) \<and>
          (\<forall>l<Suc j. fits sz ((a # m) ! l) \<longrightarrow> size_b ((a # m) ! Suc j) < size_b ((a # m) ! l))"
        using j lt by (auto simp: less_Suc_eq_0_disj)
      then show ?thesis by blast
    qed
  next
    case skip
    with Cons.prems have run: "best_fit_loop (Suc k) m sz (bi, mf) = (ri, rf)"
      by (auto simp: fits_def)
    from Cons.IH[OF run] show ?thesis
    proof (elim disjE conjE exE)
      assume "\<forall>b\<in>set m. fits sz b \<longrightarrow> \<not> frag_less (size_b b - sz) mf" "ri = bi" "rf = mf"
      with skip show ?thesis by simp
    next
      fix j
      assume j: "j < length m" "ri = Some (Suc k + j)" "rf = Some (size_b (m ! j) - sz)"
        "fits sz (m ! j)" "frag_less (size_b (m ! j) - sz) mf"
        "\<forall>l<length m. fits sz (m ! l) \<longrightarrow> size_b (m ! j) \<le> size_b (m ! l)"
        "\<forall>l<j. fits sz (m ! l) \<longrightarrow> size_b (m ! j) < size_b (m ! l)"
      have "Suc j < length (a # m) \<and> ri = Some (k + Suc j) \<and>
          rf = Some (size_b ((a # m) ! Suc j) - sz) \<and> fits sz ((a # m) ! Suc j) \<and>
          frag_less (size_b ((a # m) ! Suc j) - sz) mf \<and>
          (\<forall>l<length (a # m). fits sz ((a # m) ! l) \<longrightarrow> size_b ((a # m) ! Suc j) \<le> size_b ((a # m) ! l)) \<and>
          (\<forall>l<Suc j. fits sz ((a # m) ! l) \<longrightarrow> size_b ((a # m) ! Suc j) < size_b ((a # m) ! l))"
        using j skip by (auto simp: less_Suc_eq_0_disj)
      then show ?thesis by blast
    qed
  qed
qed

lemma find_block_first_fit_None:
  "find_block_first_fit m sz = None \<longleftrightarrow> (\<forall>b\<in>set m. \<not> fits sz b)"
  by (simp add: find_block_first_fit_def first_fit_loop_None)

lemma find_block_first_fit_Some:
  "find_block_first_fit m sz = Some (i, b) \<Longrightarrow>
     i < length m \<and> b = m ! i \<and> fits sz b \<and> (\<forall>l<i. \<not> fits sz (m ! l))"
  using first_fit_loop_Some[of 0 m sz i b] by (auto simp: find_block_first_fit_def)

lemma find_block_best_fit_None:
  "find_block_best_fit m sz = None \<longleftrightarrow> (\<forall>b\<in>set m. \<not> fits sz b)"
proof -
  obtain ri rf where r: "best_fit_loop 0 m sz (None, None) = (ri, rf)" by fastforce
  from best_fit_loop_spec[OF r] show ?thesis
    using r by (auto simp: find_block_best_fit_def split: option.splits)
qed

lemma find_block_best_fit_Some:
  "find_block_best_fit m sz = Some (i, b) \<Longrightarrow>
     i < length m \<and> b = m ! i \<and> fits sz b \<and>
     (\<forall>l<length m. fits sz (m ! l) \<longrightarrow> size_b b \<le> size_b (m ! l)) \<and>
     (\<forall>l<i. fits sz (m ! l) \<longrightarrow> size_b b < size_b (m ! l))"
proof -
  assume a: "find_block_best_fit m sz = Some (i, b)"
  obtain ri rf where r: "best_fit_loop 0 m sz (None, None) = (ri, rf)" by fastforce
  from best_fit_loop_spec[OF r] a r show ?thesis
    by (auto simp: find_block_best_fit_def split: option.splits)
qed


lemma find_block_func_Some:
  assumes "find_block_func st = Some f" "f m sz = Some (i, b)"
  shows "i < length m \<and> b = m ! i \<and> fits sz b"
  using assms find_block_first_fit_Some[of m sz i b] find_block_best_fit_Some[of m sz i b]
  by (auto simp: find_block_func_def split: if_splits)

lemma find_block_func_None:
  assumes "find_block_func st = Some f"
  shows "f m sz = None \<longleftrightarrow> (\<forall>b\<in>set m. \<not> fits sz b)"
  using assms find_block_first_fit_None[of m sz] find_block_best_fit_None[of m sz]
  by (auto simp: find_block_func_def split: if_splits)

subsection \<open>Tiling of the address space\<close>

lemma tiles_update:
  "tiles_from a m \<Longrightarrow> i < length m \<Longrightarrow> start b' = start (m ! i) \<Longrightarrow> size_b b' = size_b (m ! i)
     \<Longrightarrow> tiles_from a (m[i := b'])"
proof (induction m arbitrary: a i)
  case Nil
  then show ?case by simp
next
  case (Cons x m)
  then show ?case by (cases i) auto
qed

lemma tiles_split:
  "tiles_from a m \<Longrightarrow> i < length m \<Longrightarrow> 0 < s \<Longrightarrow> s < size_b (m ! i) \<Longrightarrow>
   start ob = start (m ! i) \<Longrightarrow> size_b ob = s \<Longrightarrow>
   start fb = start (m ! i) + s \<Longrightarrow> size_b fb = size_b (m ! i) - s \<Longrightarrow>
   tiles_from a (take i m @ [ob, fb] @ drop (Suc i) m)"
proof (induction m arbitrary: a i)
  case Nil
  then show ?case by simp
next
  case (Cons x m)
  then show ?case by (cases i) auto
qed

lemma tiles_merge_run:
  "start b = a \<Longrightarrow> 0 < size_b b \<Longrightarrow> tiles_from (a + size_b b) bs \<Longrightarrow>
   start (fst (merge_run b bs)) = a \<and> 0 < size_b (fst (merge_run b bs)) \<and>
   tiles_from (a + size_b (fst (merge_run b bs))) (snd (merge_run b bs))"
proof (induction bs arbitrary: b)
  case Nil
  then show ?case by simp
next
  case (Cons x bs)
  show ?case
  proof (cases "status x = Free")
    case True
    have "tiles_from (a + size_b (b\<lparr>size_b := size_b b + size_b x\<rparr>)) bs"
      using Cons.prems by (simp add: add.assoc)
    moreover have "0 < size_b (b\<lparr>size_b := size_b b + size_b x\<rparr>)"
      using Cons.prems by simp
    moreover have "start (b\<lparr>size_b := size_b b + size_b x\<rparr>) = a"
      using Cons.prems by simp
    ultimately show ?thesis using Cons.IH True by simp
  next
    case False
    then show ?thesis using Cons.prems by simp
  qed
qed

lemma tiles_coalesce_scan: "tiles_from a m \<Longrightarrow> tiles_from a (coalesce_scan m)"
proof (induction m arbitrary: a rule: coalesce_scan.induct)
  case 1
  then show ?case by simp
next
  case (2 b bs)
  show ?case
  proof (cases "status b = Free")
    case True
    from "2.prems" have "start b = a" "0 < size_b b" "tiles_from (a + size_b b) bs" by auto
    from tiles_merge_run[OF this] "2.IH"(1)[OF True] True show ?thesis by simp
  next
    case False
    with 2 show ?thesis by simp
  qed
qed

lemma tiles_lower: "tiles_from a m \<Longrightarrow> b \<in> set m \<Longrightarrow> a \<le> start b"
  by (induction m arbitrary: a) force+

lemma tiles_strict_sorted: "tiles_from a m \<Longrightarrow> sorted_wrt (<) (map start m)"
proof (induction m arbitrary: a)
  case Nil
  then show ?case by simp
next
  case (Cons x m)
  then have "\<forall>b\<in>set m. start x < start b" using tiles_lower[of "a + size_b x" m] by force
  with Cons show ?case by auto
qed

lemma tiles_gapless: "tiles_from a m \<Longrightarrow> gapless m"
  by (induction m arbitrary: a rule: gapless.induct) auto

lemma tiles_sort: "tiles_from a m \<Longrightarrow> sort_key start m = m"
  by (intro sort_key_id_if_sorted strict_sorted_imp_sorted tiles_strict_sorted)


subsection \<open>The sizes add up\<close>

lemma sum_update:
  "i < length m \<Longrightarrow> size_b b' = size_b (m ! i) \<Longrightarrow>
   sum_list (map size_b (m[i := b'])) = sum_list (map size_b m)"
proof (induction m arbitrary: i)
  case Nil
  then show ?case by simp
next
  case (Cons x m)
  then show ?case by (cases i) auto
qed

lemma sum_split:
  "i < length m \<Longrightarrow> size_b ob + size_b fb = size_b (m ! i) \<Longrightarrow>
   sum_list (map size_b (take i m @ [ob, fb] @ drop (Suc i) m)) = sum_list (map size_b m)"
proof (induction m arbitrary: i)
  case Nil
  then show ?case by simp
next
  case (Cons x m)
  then show ?case by (cases i) auto
qed

lemma sum_merge_run:
  "size_b (fst (merge_run b bs)) + sum_list (map size_b (snd (merge_run b bs)))
     = size_b b + sum_list (map size_b bs)"
  by (induction bs arbitrary: b) auto

lemma sum_coalesce_scan: "sum_list (map size_b (coalesce_scan m)) = sum_list (map size_b m)"
proof (induction m rule: coalesce_scan.induct)
  case 1
  then show ?case by simp
next
  case (2 b bs)
  then show ?case using sum_merge_run[of b bs] by (cases "status b = Free") auto
qed

subsection \<open>Neighbouring free blocks\<close>

lemma naf_Cons:
  "no_adjacent_free (b # bs) \<longleftrightarrow>
     (bs = [] \<or> \<not> (status b = Free \<and> status (hd bs) = Free)) \<and> no_adjacent_free bs"
  by (cases bs) auto

lemma merge_run_status: "status (fst (merge_run b bs)) = status b"
  by (induction bs arbitrary: b) auto

lemma merge_run_rest_head:
  "snd (merge_run b bs) = [] \<or> status (hd (snd (merge_run b bs))) \<noteq> Free"
  by (induction bs arbitrary: b) auto

lemma naf_coalesce_scan: "no_adjacent_free (coalesce_scan m)"
proof (induction m rule: coalesce_scan.induct)
  case 1
  then show ?case by simp
next
  case (2 b bs)
  show ?case
  proof (cases "status b = Free")
    case True
    let ?r = "snd (merge_run b bs)"
    have "coalesce_scan ?r = [] \<or> status (hd (coalesce_scan ?r)) \<noteq> Free"
      using merge_run_rest_head[of b bs] by (cases ?r) auto
    with True "2.IH"(1) show ?thesis by (simp add: naf_Cons)
  next
    case False
    with "2.IH"(2) show ?thesis by (simp add: naf_Cons)
  qed
qed

lemma merge_run_stop:
  "bs = [] \<or> status (hd bs) \<noteq> Free \<Longrightarrow> merge_run b bs = (b, bs)"
  by (cases bs) auto

lemma coalesce_scan_id: "no_adjacent_free m \<Longrightarrow> coalesce_scan m = m"
proof (induction m rule: coalesce_scan.induct)
  case 1
  then show ?case by simp
next
  case (2 b bs)
  show ?case
  proof (cases "status b = Free")
    case True
    with "2.prems" have "bs = [] \<or> status (hd bs) \<noteq> Free" by (auto simp: naf_Cons)
    then have mr: "merge_run b bs = (b, bs)" by (rule merge_run_stop)
    from "2.prems" have "no_adjacent_free bs" by (simp add: naf_Cons)
    with "2.IH"(1)[OF True] mr True show ?thesis by simp
  next
    case False
    with 2 show ?thesis by (simp add: naf_Cons)
  qed
qed

lemma coalesce_scan_idem: "coalesce_scan (coalesce_scan m) = coalesce_scan m"
  by (rule coalesce_scan_id) (rule naf_coalesce_scan)

lemma naf_update_occupied:
  "no_adjacent_free m \<Longrightarrow> status b' = Occupied \<Longrightarrow> no_adjacent_free (m[i := b'])"
proof (induction m arbitrary: i)
  case Nil
  then show ?case by simp
next
  case (Cons x m)
  show ?case
  proof (cases i)
    case 0
    with Cons.prems show ?thesis by (simp add: naf_Cons)
  next
    case (Suc k)
    have "status (hd (m[k := b'])) = Occupied \<or> hd (m[k := b']) = hd m"
      using Cons.prems(2) by (cases k; cases m) auto
    with Cons Suc show ?thesis by (auto simp: naf_Cons)
  qed
qed

lemma naf_split:
  "no_adjacent_free m \<Longrightarrow> i < length m \<Longrightarrow> status (m ! i) = Free \<Longrightarrow> status ob = Occupied \<Longrightarrow>
   no_adjacent_free (take i m @ [ob, fb] @ drop (Suc i) m)"
proof (induction m arbitrary: i)
  case Nil
  then show ?case by simp
next
  case (Cons x m)
  show ?case
  proof (cases i)
    case 0
    with Cons.prems show ?thesis by (cases m) (auto simp: naf_Cons)
  next
    case (Suc k)
    with Cons.prems have k: "k < length m" "status (m ! k) = Free" "no_adjacent_free m"
      by (auto simp: naf_Cons)
    from Cons.IH[OF k(3) k(1) k(2) Cons.prems(4)]
    have ih: "no_adjacent_free (take k m @ [ob, fb] @ drop (Suc k) m)" .
    have hd_eq: "status (hd (take k m @ [ob, fb] @ drop (Suc k) m)) = Occupied \<or>
       hd (take k m @ [ob, fb] @ drop (Suc k) m) = hd m"
      using k(1) Cons.prems(4) by (cases k; cases m) auto
    have "m \<noteq> []" using k(1) by auto
    with Cons.prems(1) have "\<not> (status x = Free \<and> status (hd m) = Free)"
      by (simp add: naf_Cons)
    with hd_eq ih Suc show ?thesis by (auto simp: naf_Cons)
  qed
qed

subsection \<open>Free blocks have no owner\<close>

lemma merge_run_pid: "pid (fst (merge_run b bs)) = pid b"
  by (induction bs arbitrary: b) auto

lemma merge_run_rest_subset: "set (snd (merge_run b bs)) \<subseteq> set bs"
  by (induction bs arbitrary: b) auto

lemma free_pid_coalesce_scan:
  "\<forall>b\<in>set m. status b = Free \<longrightarrow> pid b = None \<Longrightarrow>
   \<forall>b\<in>set (coalesce_scan m). status b = Free \<longrightarrow> pid b = None"
proof (induction m rule: coalesce_scan.induct)
  case 1
  then show ?case by simp
next
  case (2 b bs)
  show ?case
  proof (cases "status b = Free")
    case True
    have "\<forall>x\<in>set (snd (merge_run b bs)). status x = Free \<longrightarrow> pid x = None"
      using "2.prems" merge_run_rest_subset[of b bs] by auto
    from "2.IH"(1)[OF True this] "2.prems" True show ?thesis
      by (simp add: merge_run_pid)
  next
    case False
    with 2 show ?thesis by simp
  qed
qed

lemma free_pid_update:
  "\<forall>b\<in>set m. status b = Free \<longrightarrow> pid b = None \<Longrightarrow> status b' = Free \<longrightarrow> pid b' = None \<Longrightarrow>
   \<forall>b\<in>set (m[i := b']). status b = Free \<longrightarrow> pid b = None"
  using set_update_subset_insert[of m i b'] by auto

lemma free_pid_split:
  "\<forall>b\<in>set m. status b = Free \<longrightarrow> pid b = None \<Longrightarrow> status ob = Occupied \<Longrightarrow> pid fb = None \<Longrightarrow>
   \<forall>b\<in>set (take i m @ [ob, fb] @ drop (Suc i) m). status b = Free \<longrightarrow> pid b = None"
  using set_take_subset[of i m] set_drop_subset[of "Suc i" m] by auto

subsection \<open>The search of deallocation\<close>


lemma find_owner_loop_Some:
  "find_owner_loop k m p = Some i \<Longrightarrow>
     \<exists>j<length m. i = k + j \<and> held_by p (m ! j) \<and> (\<forall>l<j. \<not> held_by p (m ! l))"
proof (induction m arbitrary: k)
  case Nil
  then show ?case by simp
next
  case (Cons a m)
  show ?case
  proof (cases "held_by p a")
    case True
    with Cons.prems show ?thesis by (auto simp: held_by_def)
  next
    case False
    with Cons.prems have "find_owner_loop (Suc k) m p = Some i"
      by (auto simp: held_by_def)
    from Cons.IH[OF this] obtain j where j: "j < length m" "i = Suc k + j"
      "held_by p (m ! j)" "\<forall>l<j. \<not> held_by p (m ! l)" by blast
    have "\<forall>l<Suc j. \<not> held_by p ((a # m) ! l)"
      using False j(4) by (auto simp: less_Suc_eq_0_disj)
    with j show ?thesis by (intro exI[of _ "Suc j"]) auto
  qed
qed

lemma find_owner_Some:
  "find_owner_loop 0 m p = Some i \<Longrightarrow>
     i < length m \<and> held_by p (m ! i) \<and> (\<forall>l<i. \<not> held_by p (m ! l))"
  using find_owner_loop_Some[of 0 m p i] by auto

subsection \<open>The calls keep the state consistent\<close>

lemma allocate_memory_cases:
  obtains (fail) "allocate_memory mgr p sz st = (None, mgr)"
      "sz \<le> 0 \<or> find_block_func st = None \<or> (\<forall>b\<in>set (memory mgr). \<not> fits sz b)"
  | (exact) f i where "0 < sz" "find_block_func st = Some f"
      "f (memory mgr) sz = Some (i, memory mgr ! i)" "i < length (memory mgr)"
      "fits sz (memory mgr ! i)" "size_b (memory mgr ! i) = sz"
      "allocate_memory mgr p sz st =
         (Some (start (memory mgr ! i)),
          mgr\<lparr>memory := (memory mgr)[i := (memory mgr ! i)\<lparr>status := Occupied, pid := Some p\<rparr>]\<rparr>)"
  | (split) f i where "0 < sz" "find_block_func st = Some f"
      "f (memory mgr) sz = Some (i, memory mgr ! i)" "i < length (memory mgr)"
      "fits sz (memory mgr ! i)" "sz < size_b (memory mgr ! i)"
      "allocate_memory mgr p sz st =
         (Some (start (memory mgr ! i)),
          mgr\<lparr>memory := take i (memory mgr) @
             [\<lparr>start = start (memory mgr ! i), size_b = sz, status = Occupied, pid = Some p\<rparr>,
              \<lparr>start = start (memory mgr ! i) + sz, size_b = size_b (memory mgr ! i) - sz,
               status = Free, pid = None\<rparr>] @
             drop (Suc i) (memory mgr)\<rparr>)"
proof (cases "sz \<le> 0")
  case True
  then show ?thesis using fail by (simp add: allocate_memory_def)
next
  case pos: False
  show ?thesis
  proof (cases "find_block_func st")
    case None
    then show ?thesis using fail pos by (simp add: allocate_memory_def)
  next
    case (Some f)
    show ?thesis
    proof (cases "f (memory mgr) sz")
      case None
      with Some pos find_block_func_None[OF Some, of "memory mgr" sz] show ?thesis
        using fail by (simp add: allocate_memory_def)
    next
      case found: (Some ib)
      obtain i b where ib: "ib = (i, b)" by (cases ib)
      from find_block_func_Some[OF Some found[unfolded ib]]
      have facts: "i < length (memory mgr)" "b = memory mgr ! i" "fits sz b" by auto
      show ?thesis
      proof (cases "size_b b = sz")
        case True
        show ?thesis
          by (rule exact[of f i]) (use pos Some found ib facts True in \<open>auto simp: allocate_memory_def\<close>)
      next
        case False
        with facts have "sz < size_b (memory mgr ! i)" by (auto simp: fits_def)
        then show ?thesis
          by (intro split[of f i]) (use pos Some found ib facts False in \<open>auto simp: allocate_memory_def\<close>)
      qed
    qed
  qed
qed

lemma consistent_allocate:
  assumes "consistent mgr"
  shows "consistent (snd (allocate_memory mgr p sz st))"
proof (cases rule: allocate_memory_cases[where mgr=mgr and p=p and sz=sz and st=st])
  case fail
  with assms show ?thesis by simp
next
  case (exact f i)
  let ?m = "memory mgr" and ?b = "(memory mgr ! i)\<lparr>status := Occupied, pid := Some p\<rparr>"
  from assms have c: "tiles_from 0 ?m" "sum_list (map size_b ?m) = total_memory_size mgr"
    "no_adjacent_free ?m" "\<forall>b\<in>set ?m. status b = Free \<longrightarrow> pid b = None"
    "0 < total_memory_size mgr"
    by (auto simp: consistent_def)
  have "tiles_from 0 (?m[i := ?b])" using c(1) exact(4) by (intro tiles_update) auto
  moreover have "sum_list (map size_b (?m[i := ?b])) = total_memory_size mgr"
    using sum_update[of i ?m ?b] exact(4) c(2) by simp
  moreover have "no_adjacent_free (?m[i := ?b])" using c(3) by (intro naf_update_occupied) auto
  moreover have "\<forall>b\<in>set (?m[i := ?b]). status b = Free \<longrightarrow> pid b = None"
    using c(4) by (intro free_pid_update) auto
  ultimately show ?thesis using exact(7) c(5) by (simp add: consistent_def)
next
  case (split f i)
  let ?m = "memory mgr"
  let ?ob = "\<lparr>start = start (?m ! i), size_b = sz, status = Occupied, pid = Some p\<rparr>"
  let ?fb = "\<lparr>start = start (?m ! i) + sz, size_b = size_b (?m ! i) - sz,
               status = Free, pid = None\<rparr>"
  let ?m' = "take i ?m @ [?ob, ?fb] @ drop (Suc i) ?m"
  from assms have c: "tiles_from 0 ?m" "sum_list (map size_b ?m) = total_memory_size mgr"
    "no_adjacent_free ?m" "\<forall>b\<in>set ?m. status b = Free \<longrightarrow> pid b = None"
    "0 < total_memory_size mgr"
    by (auto simp: consistent_def)
  have "tiles_from 0 ?m'" using c(1) split(1,4,6) by (intro tiles_split) auto
  moreover have "sum_list (map size_b ?m') = total_memory_size mgr"
    using sum_split[of i ?m ?ob ?fb] split(4) c(2) by simp
  moreover have "no_adjacent_free ?m'"
    using c(3) split(4,5) by (intro naf_split) (auto simp: fits_def)
  moreover have "\<forall>b\<in>set ?m'. status b = Free \<longrightarrow> pid b = None"
    using c(4) by (intro free_pid_split) auto
  ultimately show ?thesis using split(7) c(5) by (simp add: consistent_def)
qed

lemma consistent_deallocate:
  assumes "consistent mgr"
  shows "consistent (snd (deallocate_memory mgr p))"
proof (cases "find_owner_loop 0 (memory mgr) p")
  case None
  with assms show ?thesis by (simp add: deallocate_memory_def)
next
  case (Some i)
  let ?m = "memory mgr" and ?b = "(memory mgr ! i)\<lparr>status := Free, pid := None\<rparr>"
  from find_owner_Some[OF Some] have i: "i < length ?m" by simp
  from assms have c: "tiles_from 0 ?m" "sum_list (map size_b ?m) = total_memory_size mgr"
    "\<forall>b\<in>set ?m. status b = Free \<longrightarrow> pid b = None" "0 < total_memory_size mgr"
    by (auto simp: consistent_def)
  have t: "tiles_from 0 (coalesce_scan (?m[i := ?b]))"
    using c(1) i by (intro tiles_coalesce_scan tiles_update) auto
  have s: "sum_list (map size_b (coalesce_scan (?m[i := ?b]))) = total_memory_size mgr"
    using sum_update[of i ?m ?b] i c(2) by (simp add: sum_coalesce_scan)
  have f: "\<forall>b\<in>set (coalesce_scan (?m[i := ?b])). status b = Free \<longrightarrow> pid b = None"
    using c(3) by (intro free_pid_coalesce_scan free_pid_update) auto
  have "snd (deallocate_memory mgr p) = mgr\<lparr>memory := coalesce_scan (?m[i := ?b])\<rparr>"
    using Some tiles_sort[OF t] by (simp add: deallocate_memory_def coalesce_free_blocks_def)
  with t s f c(4) show ?thesis by (simp add: consistent_def naf_coalesce_scan)
qed

lemma consistent_apply_request: "consistent mgr \<Longrightarrow> consistent (apply_request mgr r)"
  by (cases r) (simp_all add: consistent_allocate consistent_deallocate)

lemma consistent_run: "consistent mgr \<Longrightarrow> consistent (run mgr reqs)"
  unfolding run_def
  by (induction reqs arbitrary: mgr) (simp_all add: consistent_apply_request)

lemma consistent_MemoryManager: "MemoryManager n = Some mgr \<Longrightarrow> consistent mgr"
  by (auto simp: MemoryManager_def consistent_def split: if_splits)

lemma total_allocate: "total_memory_size (snd (allocate_memory mgr p sz st)) = total_memory_size mgr"
  by (cases rule: allocate_memory_cases[where mgr=mgr and p=p and sz=sz and st=st]) simp_all

lemma total_deallocate: "total_memory_size (snd (deallocate_memory mgr p)) = total_memory_size mgr"
  by (simp add: deallocate_memory_def coalesce_free_blocks_def split: option.splits)

lemma total_run: "total_memory_size (run mgr reqs) = total_memory_size mgr"
  unfolding run_def
proof (induction reqs arbitrary: mgr)
  case Nil
  then show ?case by simp
next
  case (Cons r reqs)
  then show ?case by (cases r) (simp_all add: total_allocate total_deallocate)
qed

lemma consistent_nonempty: "consistent mgr \<Longrightarrow> memory mgr \<noteq> []"
  by (auto simp: consistent_def)

lemma tiles_positive: "tiles_from a m \<Longrightarrow> \<forall>b\<in>set m. 0 < size_b b"
  by (induction m arbitrary: a) auto

lemma tiles_hd: "tiles_from a m \<Longrightarrow> m \<noteq> [] \<Longrightarrow> start (hd m) = a"
  by (cases m) auto

subsection \<open>What an allocation does\<close>

lemma find_block_func_first_fit [simp]: "find_block_func ''first_fit'' = Some find_block_first_fit"
  by (simp add: find_block_func_def)

lemma find_block_func_best_fit [simp]: "find_block_func ''best_fit'' = Some find_block_best_fit"
  by (simp add: find_block_func_def)

lemma find_block_func_eq_None:
  "find_block_func st = None \<longleftrightarrow> st \<noteq> ''first_fit'' \<and> st \<noteq> ''best_fit''"
  by (simp add: find_block_func_def)

lemma allocate_memory_found:
  assumes "0 < sz" "find_block_func st = Some f" "f (memory mgr) sz = Some (i, b)"
  shows "allocate_memory mgr p sz st =
     (Some (start b),
      mgr\<lparr>memory :=
        (if size_b b = sz then (memory mgr)[i := b\<lparr>status := Occupied, pid := Some p\<rparr>]
         else take i (memory mgr) @
           [\<lparr>start = start b, size_b = sz, status = Occupied, pid = Some p\<rparr>,
            \<lparr>start = start b + sz, size_b = size_b b - sz, status = Free, pid = None\<rparr>] @
           drop (Suc i) (memory mgr))\<rparr>)"
  using assms by (simp add: allocate_memory_def)

lemma allocated_block_at:
  assumes "0 < sz" "find_block_func st = Some f" "f (memory mgr) sz = Some (i, b)"
  shows "memory (snd (allocate_memory mgr p sz st)) ! i =
     \<lparr>start = start b, size_b = sz, status = Occupied, pid = Some p\<rparr>"
proof -
  from find_block_func_Some[OF assms(2,3)] have i: "i < length (memory mgr)" by simp
  show ?thesis
    using i by (simp add: allocate_memory_found[OF assms] nth_append)
qed

lemma sorted_start_nth:
  "sorted (map start m) \<Longrightarrow> i \<le> l \<Longrightarrow> l < length m \<Longrightarrow> start (m ! i) \<le> start (m ! l)"
  using sorted_nth_mono[of "map start m" i l] by simp

lemma allocate_memory_fails_iff:
  "fst (allocate_memory mgr p sz st) = None \<longleftrightarrow>
     sz \<le> 0 \<or> find_block_func st = None \<or> (\<forall>b\<in>set (memory mgr). \<not> fits sz b)"
  by (cases rule: allocate_memory_cases[where mgr=mgr and p=p and sz=sz and st=st])
    (auto simp: find_block_func_None)

lemma allocate_memory_fails_unchanged:
  "fst (allocate_memory mgr p sz st) = None \<Longrightarrow> snd (allocate_memory mgr p sz st) = mgr"
  by (cases rule: allocate_memory_cases[where mgr=mgr and p=p and sz=sz and st=st]) auto

subsection \<open>Coalescing a list in address order\<close>

lemma merge_run_start: "start (fst (merge_run b bs)) = start b"
  by (induction bs arbitrary: b) auto

lemma coalesce_scan_starts: "start ` set (coalesce_scan m) \<subseteq> start ` set m"
proof (induction m rule: coalesce_scan.induct)
  case 1
  then show ?case by simp
next
  case (2 b bs)
  show ?case
  proof (cases "status b = Free")
    case True
    from "2.IH"(1)[OF True] merge_run_rest_subset[of b bs]
    have "start ` set (coalesce_scan (snd (merge_run b bs))) \<subseteq> start ` set bs" by blast
    with True show ?thesis by (auto simp: merge_run_start)
  next
    case False
    with "2.IH"(2) show ?thesis by auto
  qed
qed

lemma sorted_merge_run_rest:
  "sorted (map start bs) \<Longrightarrow> sorted (map start (snd (merge_run b bs)))"
  by (induction bs arbitrary: b) auto

lemma coalesce_scan_lower:
  assumes "\<forall>x\<in>set m. a \<le> start x" and "y \<in> set (coalesce_scan m)"
  shows "a \<le> start y"
proof -
  from assms(2) have "start y \<in> start ` set m" using coalesce_scan_starts[of m] by blast
  then obtain x where "x \<in> set m" "start y = start x" by (elim imageE)
  with assms(1) show ?thesis by simp
qed

lemma sorted_coalesce_scan:
  "sorted (map start m) \<Longrightarrow> sorted (map start (coalesce_scan m))"
proof (induction m rule: coalesce_scan.induct)
  case 1
  then show ?case by simp
next
  case (2 b bs)
  from "2.prems" have low: "\<forall>x\<in>set bs. start b \<le> start x" and bs: "sorted (map start bs)"
    by simp_all
  show ?case
  proof (cases "status b = Free")
    case True
    let ?r = "snd (merge_run b bs)"
    have "sorted (map start (coalesce_scan ?r))"
      using "2.IH"(1)[OF True sorted_merge_run_rest[OF bs]] .
    moreover have "\<forall>x\<in>set ?r. start b \<le> start x"
      using merge_run_rest_subset[of b bs] low by blast
    then have "\<forall>y\<in>set (coalesce_scan ?r). start b \<le> start y"
      using coalesce_scan_lower by blast
    ultimately show ?thesis using True by (simp add: merge_run_start)
  next
    case False
    have "\<forall>y\<in>set (coalesce_scan bs). start b \<le> start y"
      using coalesce_scan_lower[OF low] by blast
    with "2.IH"(2)[OF False bs] False show ?thesis by simp
  qed
qed

lemma coalesce_sorted:
  "sorted (map start (memory mgr)) \<Longrightarrow>
   coalesce_free_blocks mgr = mgr\<lparr>memory := coalesce_scan (memory mgr)\<rparr>"
  by (simp add: coalesce_free_blocks_def sort_key_id_if_sorted sorted_coalesce_scan)

lemma deallocate_memory_None:
  "find_owner_loop 0 (memory mgr) p = None \<Longrightarrow> deallocate_memory mgr p = (False, mgr)"
  by (simp add: deallocate_memory_def)

lemma deallocate_memory_Some:
  "find_owner_loop 0 (memory mgr) p = Some i \<Longrightarrow>
   deallocate_memory mgr p =
     (True, coalesce_free_blocks
        (mgr\<lparr>memory := (memory mgr)[i := (memory mgr ! i)\<lparr>status := Free, pid := None\<rparr>]\<rparr>))"
  by (simp add: deallocate_memory_def)


lemma starts_update:
  "start b' = start (m ! i) \<Longrightarrow> map start (m[i := b']) = map start m"
  by (induction m arbitrary: i) (auto split: nat.splits)

subsection \<open>Counting the blocks of a process\<close>

lemma owner_count_Nil [simp]: "owner_count q [] = 0"
  by (simp add: owner_count_def)

lemma owner_count_Cons [simp]:
  "owner_count q (b # bs) = (if held_by q b then 1 else 0) + owner_count q bs"
  by (simp add: owner_count_def)

lemma owner_count_append [simp]:
  "owner_count q (xs @ ys) = owner_count q xs + owner_count q ys"
  by (simp add: owner_count_def)

lemma owner_count_replace:
  assumes "i < length m"
  shows "owner_count q (take i m @ bs @ drop (Suc i) m) + (if held_by q (m ! i) then 1 else 0)
       = owner_count q m + owner_count q bs"
proof -
  have "owner_count q m = owner_count q (take i m @ m ! i # drop (Suc i) m)"
    using id_take_nth_drop[OF assms] by simp
  then show ?thesis by simp
qed

lemma owner_count_update:
  assumes "i < length m"
  shows "owner_count q (m[i := b']) + (if held_by q (m ! i) then 1 else 0)
       = owner_count q m + (if held_by q b' then 1 else 0)"
  using owner_count_replace[OF assms, of q "[b']"] upd_conv_take_nth_drop[OF assms, of b']
  by simp

lemma held_by_merge_run: "held_by q (fst (merge_run b bs)) = held_by q b"
  by (simp add: held_by_def merge_run_status merge_run_pid)

lemma owner_count_merge_run_rest: "owner_count q (snd (merge_run b bs)) = owner_count q bs"
  by (induction bs arbitrary: b) (auto simp: held_by_def)

lemma owner_count_coalesce_scan: "owner_count q (coalesce_scan m) = owner_count q m"
proof (induction m rule: coalesce_scan.induct)
  case 1
  then show ?case by simp
next
  case (2 b bs)
  then show ?case
    by (cases "status b = Free") (simp_all add: held_by_merge_run owner_count_merge_run_rest)
qed

lemma owner_count_sort: "owner_count q (sort_key f m) = owner_count q m"
  by (simp add: owner_count_def filter_sort)

lemma owner_count_allocate:
  "owner_count q (memory (snd (allocate_memory mgr p sz st))) =
     owner_count q (memory mgr) +
     (if q = p \<and> fst (allocate_memory mgr p sz st) \<noteq> None then 1 else 0)"
proof (cases rule: allocate_memory_cases[where mgr=mgr and p=p and sz=sz and st=st])
  case fail
  then show ?thesis by simp
next
  case (exact f i)
  from exact(5) have "\<not> held_by q (memory mgr ! i)" by (simp add: fits_def held_by_def)
  with owner_count_update[OF exact(4), of q "(memory mgr ! i)\<lparr>status := Occupied, pid := Some p\<rparr>"]
  show ?thesis by (auto simp: exact(7) held_by_def)
next
  case (split f i)
  from split(5) have "\<not> held_by q (memory mgr ! i)" by (simp add: fits_def held_by_def)
  with owner_count_replace[OF split(4), of q
      "[\<lparr>start = start (memory mgr ! i), size_b = sz, status = Occupied, pid = Some p\<rparr>,
        \<lparr>start = start (memory mgr ! i) + sz, size_b = size_b (memory mgr ! i) - sz,
         status = Free, pid = None\<rparr>]"]
  show ?thesis by (auto simp: split(7) held_by_def)
qed

lemma owner_count_deallocate:
  "owner_count q (memory (snd (deallocate_memory mgr p))) \<le> owner_count q (memory mgr)"
proof (cases "find_owner_loop 0 (memory mgr) p")
  case None
  then show ?thesis by (simp add: deallocate_memory_None)
next
  case (Some i)
  from find_owner_Some[OF Some] have i: "i < length (memory mgr)" by simp
  from owner_count_update[OF i, of q "(memory mgr ! i)\<lparr>status := Free, pid := None\<rparr>"]
  have "owner_count q ((memory mgr)[i := (memory mgr ! i)\<lparr>status := Free, pid := None\<rparr>])
          \<le> owner_count q (memory mgr)"
    by (simp add: held_by_def split: if_splits)
  then show ?thesis
    by (simp add: deallocate_memory_Some[OF Some] coalesce_free_blocks_def
        owner_count_sort owner_count_coalesce_scan)
qed

lemma one_owner_run:
  assumes "\<forall>q. owner_count q (memory mgr) \<le> 1" and "one_block_each mgr reqs"
  shows "owner_count p (memory (run mgr reqs)) \<le> 1"
  using assms unfolding run_def
proof (induction reqs arbitrary: mgr)
  case Nil
  then show ?case by simp
next
  case (Cons r reqs)
  have step: "\<forall>q. owner_count q (memory (apply_request mgr r)) \<le> 1"
  proof (cases r)
    case (Allocate p' sz st)
    with Cons.prems(2) have
      "fst (allocate_memory mgr p' sz st) = None \<or> owner_count p' (memory mgr) = 0" by simp
    with Cons.prems(1) show ?thesis
      by (auto simp: Allocate owner_count_allocate)
  next
    case (Deallocate p')
    show ?thesis
      using Cons.prems(1) owner_count_deallocate[of _ mgr p']
      by (auto simp: Deallocate intro: order_trans)
  qed
  moreover from Cons.prems(2) have "one_block_each (apply_request mgr r) reqs"
    by (cases r) simp_all
  ultimately show ?case using Cons.IH by simp
qed

lemma one_block_each_take: "one_block_each mgr reqs \<Longrightarrow> one_block_each mgr (take k reqs)"
proof (induction reqs arbitrary: mgr k)
  case Nil
  then show ?case by simp
next
  case (Cons r reqs)
  show ?case
  proof (cases k)
    case 0
    then show ?thesis by simp
  next
    case (Suc j)
    with Cons show ?thesis by (cases r) simp_all
  qed
qed

subsection \<open>Allocating and releasing again\<close>

lemma find_owner_loop_first:
  "i < length m \<Longrightarrow> held_by p (m ! i) \<Longrightarrow> \<forall>l<i. \<not> held_by p (m ! l) \<Longrightarrow>
   find_owner_loop k m p = Some (k + i)"
proof (induction m arbitrary: k i)
  case Nil
  then show ?case by simp
next
  case (Cons x m)
  show ?case
  proof (cases i)
    case 0
    with Cons.prems show ?thesis by (simp add: held_by_def)
  next
    case (Suc j)
    with Cons.prems have "\<not> held_by p x" by auto
    moreover from Cons.prems Suc have "j < length m" "held_by p (m ! j)"
      "\<forall>l<j. \<not> held_by p (m ! l)" by auto
    from Cons.IH[OF this, of "Suc k"] have "find_owner_loop (Suc k) m p = Some (Suc k + j)" .
    ultimately show ?thesis using Suc by (simp add: held_by_def)
  qed
qed

lemma tiles_nth_less:
  assumes "tiles_from a m" "l < i" "i < length m"
  shows "start (m ! l) < start (m ! i)"
  using sorted_wrt_nth_less[OF tiles_strict_sorted[OF assms(1)], of l i] assms(2,3)
  by simp

lemma coalesce_scan_merge_pair:
  "no_adjacent_free m \<Longrightarrow> i < length m \<Longrightarrow> status (m ! i) = Free \<Longrightarrow>
   status f1 = Free \<Longrightarrow> status f2 = Free \<Longrightarrow>
   coalesce_scan (take i m @ [f1, f2] @ drop (Suc i) m) =
     take i m @ [f1\<lparr>size_b := size_b f1 + size_b f2\<rparr>] @ drop (Suc i) m"
proof (induction m arbitrary: i)
  case Nil
  then show ?case by simp
next
  case (Cons x bs)
  from Cons.prems(1) have naf: "no_adjacent_free bs" by (simp add: naf_Cons)
  show ?case
  proof (cases i)
    case 0
    with Cons.prems have "bs = [] \<or> status (hd bs) \<noteq> Free" by (auto simp: naf_Cons)
    then have "merge_run (f1\<lparr>size_b := size_b f1 + size_b f2\<rparr>) bs
        = (f1\<lparr>size_b := size_b f1 + size_b f2\<rparr>, bs)"
      by (rule merge_run_stop)
    with 0 Cons.prems(4,5) coalesce_scan_id[OF naf] show ?thesis by simp
  next
    case (Suc k)
    let ?X = "take k bs @ [f1, f2] @ drop (Suc k) bs"
    from Cons.prems Suc have k: "k < length bs" "status (bs ! k) = Free" by auto
    from Cons.IH[OF naf k Cons.prems(4,5)]
    have ih: "coalesce_scan ?X = take k bs @ [f1\<lparr>size_b := size_b f1 + size_b f2\<rparr>] @ drop (Suc k) bs" .
    show ?thesis
    proof (cases "status x = Free")
      case True
      from k(1) have ne: "bs \<noteq> []" by auto
      with Cons.prems(1) True have hd: "status (hd bs) \<noteq> Free" by (simp add: naf_Cons)
      have "k \<noteq> 0"
      proof
        assume "k = 0"
        with k(2) ne hd show False by (cases bs) auto
      qed
      then have "hd ?X = hd bs" using ne by (cases bs; cases k) auto
      with hd have "?X = [] \<or> status (hd ?X) \<noteq> Free" by simp
      then have "merge_run x ?X = (x, ?X)" by (rule merge_run_stop)
      with True ih Suc show ?thesis by simp
    next
      case False
      with ih Suc show ?thesis by simp
    qed
  qed
qed

lemma coalesce_consistent:
  assumes "consistent mgr"
  shows "coalesce_free_blocks mgr = mgr"
proof -
  from assms have "tiles_from 0 (memory mgr)" "no_adjacent_free (memory mgr)"
    by (simp_all add: consistent_def)
  then show ?thesis
    by (simp add: coalesce_free_blocks_def coalesce_scan_id tiles_sort)
qed

lemma allocate_then_deallocate:
  assumes c: "consistent mgr"
    and a: "allocate_memory mgr p sz st = (Some A, mgr1)"
    and above: "\<forall>b\<in>set (memory mgr). held_by p b \<longrightarrow> A < start b"
  shows "deallocate_memory mgr1 p = (True, mgr)"
proof (cases rule: allocate_memory_cases[where mgr=mgr and p=p and sz=sz and st=st])
  case fail
  with a show ?thesis by simp
next
  case (exact f i)
  let ?m = "memory mgr"
  let ?ob = "(?m ! i)\<lparr>status := Occupied, pid := Some p\<rparr>"
  from exact(7) a have A: "A = start (?m ! i)" and m1: "mgr1 = mgr\<lparr>memory := ?m[i := ?ob]\<rparr>"
    by simp_all
  from c have t: "tiles_from 0 ?m" and fp: "\<forall>b\<in>set ?m. status b = Free \<longrightarrow> pid b = None"
    by (simp_all add: consistent_def)
  have before: "\<forall>l<i. \<not> held_by p ((?m[i := ?ob]) ! l)"
  proof (intro allI impI notI)
    fix l assume l: "l < i" and h: "held_by p ((?m[i := ?ob]) ! l)"
    with exact(4) have "held_by p (?m ! l)" "?m ! l \<in> set ?m" by auto
    with above have "A < start (?m ! l)" by blast
    with tiles_nth_less[OF t l exact(4)] A show False by simp
  qed
  have "find_owner_loop 0 (?m[i := ?ob]) p = Some (0 + i)"
    using exact(4) before by (intro find_owner_loop_first) (simp_all add: held_by_def)
  then have f: "find_owner_loop 0 (memory mgr1) p = Some i" by (simp add: m1)
  have "status (?m ! i) = Free" using exact(5) by (simp add: fits_def)
  moreover with fp exact(4) have "pid (?m ! i) = None" by simp
  ultimately have "?ob\<lparr>status := Free, pid := None\<rparr> = ?m ! i" by simp
  then have "(memory mgr1)[i := (memory mgr1 ! i)\<lparr>status := Free, pid := None\<rparr>] = ?m"
    using exact(4) by (simp add: m1)
  then have "mgr1\<lparr>memory := (memory mgr1)[i := (memory mgr1 ! i)\<lparr>status := Free, pid := None\<rparr>]\<rparr>
      = mgr"
    by (simp add: m1)
  with deallocate_memory_Some[OF f] coalesce_consistent[OF c] show ?thesis by simp
next
  case (split f i)
  let ?m = "memory mgr"
  let ?ob = "\<lparr>start = start (?m ! i), size_b = sz, status = Occupied, pid = Some p\<rparr>"
  let ?fb = "\<lparr>start = start (?m ! i) + sz, size_b = size_b (?m ! i) - sz,
               status = Free, pid = None\<rparr>"
  let ?m1 = "take i ?m @ [?ob, ?fb] @ drop (Suc i) ?m"
  from split(7) a have A: "A = start (?m ! i)" and m1: "mgr1 = mgr\<lparr>memory := ?m1\<rparr>"
    by simp_all
  from c have t: "tiles_from 0 ?m" and fp: "\<forall>b\<in>set ?m. status b = Free \<longrightarrow> pid b = None"
    and naf: "no_adjacent_free ?m"
    by (simp_all add: consistent_def)
  have at: "?m1 ! i = ?ob" and len: "i < length ?m1"
    using split(4) by (simp_all add: nth_append)
  have before: "\<forall>l<i. \<not> held_by p (?m1 ! l)"
  proof (intro allI impI notI)
    fix l assume l: "l < i" and h: "held_by p (?m1 ! l)"
    with split(4) have "held_by p (?m ! l)" "?m ! l \<in> set ?m" by (auto simp: nth_append)
    with above have "A < start (?m ! l)" by blast
    with tiles_nth_less[OF t l split(4)] A show False by simp
  qed
  have "find_owner_loop 0 ?m1 p = Some (0 + i)"
    using len before at by (intro find_owner_loop_first) (simp_all add: held_by_def)
  then have f: "find_owner_loop 0 (memory mgr1) p = Some i" by (simp add: m1)
  have free: "status (?m ! i) = Free" using split(5) by (simp add: fits_def)
  with fp split(4) have nopid: "pid (?m ! i) = None" by simp
  let ?f1 = "\<lparr>start = start (?m ! i), size_b = sz, status = Free, pid = None\<rparr>"
  have upd: "?m1[i := (?m1 ! i)\<lparr>status := Free, pid := None\<rparr>]
      = take i ?m @ [?f1, ?fb] @ drop (Suc i) ?m"
    using split(4) by (simp add: list_update_append nth_append)
  have "?f1\<lparr>size_b := size_b ?f1 + size_b ?fb\<rparr> = ?m ! i"
    using free nopid by simp
  with coalesce_scan_merge_pair[OF naf split(4) free, of ?f1 ?fb]
  have "coalesce_scan (take i ?m @ [?f1, ?fb] @ drop (Suc i) ?m)
      = take i ?m @ [?m ! i] @ drop (Suc i) ?m" by simp
  also have "\<dots> = ?m" using id_take_nth_drop[OF split(4)] by simp
  finally have "coalesce_scan (take i ?m @ [?f1, ?fb] @ drop (Suc i) ?m) = ?m" .
  then have scan: "coalesce_scan (take i ?m @ ?f1 # ?fb # drop (Suc i) ?m) = ?m" by simp
  have "coalesce_free_blocks (mgr\<lparr>memory := take i ?m @ [?f1, ?fb] @ drop (Suc i) ?m\<rparr>) = mgr"
    by (simp add: coalesce_free_blocks_def scan tiles_sort[OF t])
  moreover have "mgr1\<lparr>memory := (memory mgr1)[i := (memory mgr1 ! i)\<lparr>status := Free, pid := None\<rparr>]\<rparr>
      = mgr\<lparr>memory := take i ?m @ [?f1, ?fb] @ drop (Suc i) ?m\<rparr>"
    using upd by (simp add: m1)
  ultimately show ?thesis using deallocate_memory_Some[OF f] by simp
qed

lemma allocate_address_any_owner:
  "fst (allocate_memory mgr p sz st) = fst (allocate_memory mgr p' sz st)"
  by (simp add: allocate_memory_def split: option.splits prod.splits)

lemma two_owners_memory:
  "two_owners = scenario_E\<lparr>memory :=
     [\<lparr>start = 0, size_b = 100, status = Occupied, pid = Some 1\<rparr>,
      \<lparr>start = 100, size_b = 100, status = Occupied, pid = Some 2\<rparr>,
      \<lparr>start = 200, size_b = 100, status = Free, pid = None\<rparr>]\<rparr>"
  by (simp add: two_owners_def scenario_E_def run_def allocate_memory_def
      find_block_func_def find_block_first_fit_def)

lemma hole_below_memory:
  "hole_below = scenario_E\<lparr>memory :=
     [\<lparr>start = 0, size_b = 100, status = Free, pid = None\<rparr>,
      \<lparr>start = 100, size_b = 100, status = Occupied, pid = Some 2\<rparr>,
      \<lparr>start = 200, size_b = 100, status = Occupied, pid = Some 1\<rparr>]\<rparr>"
  by (simp add: hole_below_def scenario_E_def run_def allocate_memory_def deallocate_memory_def
      coalesce_free_blocks_def find_block_func_def find_block_first_fit_def)

section \<open>The claims\<close>

text \<open>
  C1. A manager constructed with a positive total exists, and after any sequence of
  \<^verbatim>\<open>allocate_memory\<close> and \<^verbatim>\<open>deallocate_memory\<close> calls, whatever their arguments, its block list
  is in strictly ascending order of \<open>start\<close>, each block ends where the next one starts, every
  size is positive, the first block starts at 0, the sizes add up to the total, and no two
  neighbouring blocks are both free.
\<close>

theorem invariant_preservation:
  assumes "0 < n"
  shows "\<exists>mgr0. MemoryManager n = Some mgr0 \<and>
    (\<forall>reqs. let mem = memory (run mgr0 reqs) in
       sorted_wrt (<) (map start mem) \<and> gapless mem \<and> (\<forall>b\<in>set mem. 0 < size_b b) \<and>
       mem \<noteq> [] \<and> start (hd mem) = 0 \<and>
       sum_list (map size_b mem) = n \<and> no_adjacent_free mem)"
proof -
  from assms obtain mgr0 where m0: "MemoryManager n = Some mgr0"
    by (simp add: MemoryManager_def)
  then have n: "total_memory_size mgr0 = n"
    by (auto simp: MemoryManager_def split: if_splits)
  have "let mem = memory (run mgr0 reqs) in
       sorted_wrt (<) (map start mem) \<and> gapless mem \<and> (\<forall>b\<in>set mem. 0 < size_b b) \<and>
       mem \<noteq> [] \<and> start (hd mem) = 0 \<and>
       sum_list (map size_b mem) = n \<and> no_adjacent_free mem" for reqs
  proof -
    have c: "consistent (run mgr0 reqs)"
      by (rule consistent_run) (rule consistent_MemoryManager[OF m0])
    then have t: "tiles_from 0 (memory (run mgr0 reqs))" by (simp add: consistent_def)
    from c have "sum_list (map size_b (memory (run mgr0 reqs))) = n"
      by (simp add: consistent_def total_run n)
    moreover from c have "no_adjacent_free (memory (run mgr0 reqs))"
      by (simp add: consistent_def)
    ultimately show ?thesis
      using tiles_strict_sorted[OF t] tiles_gapless[OF t] tiles_positive[OF t]
        consistent_nonempty[OF c] tiles_hd[OF t consistent_nonempty[OF c]]
      by (simp add: Let_def)
  qed
  with m0 show ?thesis by blast
qed

theorem invariant_preservation_witness:
  "(0::int) < 1000 \<and> (\<exists>mgr0. MemoryManager 1000 = Some mgr0 \<and>
     sum_list (map size_b (memory (run mgr0
        [Allocate 1 100 ''first_fit'', Allocate 2 900 ''best_fit'', Deallocate 1]))) = 1000 \<and>
     no_adjacent_free (memory (run mgr0
        [Allocate 1 100 ''first_fit'', Allocate 2 900 ''best_fit'', Deallocate 1])))"
proof -
  have h: "(0::int) < 1000" by simp
  from invariant_preservation[OF h] show ?thesis
    by (auto simp: Let_def)
qed


text \<open>
  C8. For a positive request and a block list with a fitting free block, \<^verbatim>\<open>allocate_memory\<close>
  with \<^verbatim>\<open>first_fit\<close> takes the first block in list order that is free and large enough: no
  block before it fits, it is what \<^verbatim>\<open>_find_block_first_fit\<close> returns, its start is the
  address returned, and the occupied block of the requested size sits at its index
  afterwards. In a list ordered by \<open>start\<close> it is the fitting block of lowest address.
\<close>

theorem first_fit_selects:
  assumes "0 < sz" and "\<exists>b\<in>set (memory mgr). fits sz b"
  shows "\<exists>i<length (memory mgr).
     fits sz (memory mgr ! i) \<and>
     (\<forall>l<i. \<not> fits sz (memory mgr ! l)) \<and>
     (sorted (map start (memory mgr)) \<longrightarrow>
        (\<forall>b\<in>set (memory mgr). fits sz b \<longrightarrow> start (memory mgr ! i) \<le> start b)) \<and>
     find_block_first_fit (memory mgr) sz = Some (i, memory mgr ! i) \<and>
     fst (allocate_memory mgr p sz ''first_fit'') = Some (start (memory mgr ! i)) \<and>
     memory (snd (allocate_memory mgr p sz ''first_fit'')) ! i =
       \<lparr>start = start (memory mgr ! i), size_b = sz, status = Occupied, pid = Some p\<rparr>"
proof -
  let ?m = "memory mgr"
  from assms(2) have "find_block_first_fit ?m sz \<noteq> None"
    by (simp add: find_block_first_fit_None)
  then obtain i b where f: "find_block_first_fit ?m sz = Some (i, b)" by auto
  from find_block_first_fit_Some[OF f]
  have i: "i < length ?m" and b: "b = ?m ! i" and fit: "fits sz (?m ! i)"
    and first: "\<forall>l<i. \<not> fits sz (?m ! l)" by auto
  have least: "start (?m ! i) \<le> start c"
    if s: "sorted (map start ?m)" and c: "c \<in> set ?m" "fits sz c" for c
  proof -
    from c(1) obtain l where l: "l < length ?m" "c = ?m ! l" by (auto simp: in_set_conv_nth)
    with first c(2) have "i \<le> l" by (meson not_less)
    from sorted_start_nth[OF s this l(1)] l(2) show ?thesis by simp
  qed
  have "fst (allocate_memory mgr p sz ''first_fit'') = Some (start (?m ! i))"
    using allocate_memory_found[OF assms(1) find_block_func_first_fit f] b by simp
  moreover note allocated_block_at[OF assms(1) find_block_func_first_fit f, of p]
  ultimately show ?thesis using i b fit first least f by blast
qed

theorem first_fit_selects_witness:
  "find_block_first_fit
     [\<lparr>start = 0, size_b = 10, status = Free, pid = None\<rparr>,
      \<lparr>start = 10, size_b = 30, status = Occupied, pid = Some 1\<rparr>,
      \<lparr>start = 40, size_b = 50, status = Free, pid = None\<rparr>,
      \<lparr>start = 90, size_b = 20, status = Free, pid = None\<rparr>] 20
    = Some (2, \<lparr>start = 40, size_b = 50, status = Free, pid = None\<rparr>)"
proof -
  let ?mgr = "\<lparr>total_memory_size = 110, memory =
     [\<lparr>start = 0, size_b = 10, status = Free, pid = None\<rparr>,
      \<lparr>start = 10, size_b = 30, status = Occupied, pid = Some 1\<rparr>,
      \<lparr>start = 40, size_b = 50, status = Free, pid = None\<rparr>,
      \<lparr>start = 90, size_b = 20, status = Free, pid = None\<rparr>], current_strategy = None\<rparr>"
  have h1: "(0::int) < 20" by simp
  have h2: "\<exists>b\<in>set (memory ?mgr). fits 20 b" by (simp add: fits_def)
  from first_fit_selects[OF h1 h2, of 7] show ?thesis
    by (auto simp: fits_def less_Suc_eq_0_disj numeral_3_eq_3 numeral_2_eq_2)
qed

text \<open>
  C2. For a positive request and a block list with a fitting free block, \<^verbatim>\<open>allocate_memory\<close>
  with \<^verbatim>\<open>best_fit\<close> takes a fitting free block of minimum leftover; among the fitting blocks
  of the same leftover it takes the first in list order, which in a list ordered by \<open>start\<close>
  is the one of lowest address. With free blocks of 50, 20 and 80 units and a request of 15
  it takes the block of 20 units.
\<close>

theorem best_fit_selects:
  assumes "0 < sz" and "\<exists>b\<in>set (memory mgr). fits sz b"
  shows "\<exists>i<length (memory mgr).
     fits sz (memory mgr ! i) \<and>
     (\<forall>b\<in>set (memory mgr). fits sz b \<longrightarrow> size_b (memory mgr ! i) - sz \<le> size_b b - sz) \<and>
     (\<forall>l<length (memory mgr).
        fits sz (memory mgr ! l) \<and> size_b (memory mgr ! l) - sz = size_b (memory mgr ! i) - sz
        \<longrightarrow> i \<le> l) \<and>
     (sorted (map start (memory mgr)) \<longrightarrow>
        (\<forall>b\<in>set (memory mgr). fits sz b \<and> size_b b - sz = size_b (memory mgr ! i) - sz
           \<longrightarrow> start (memory mgr ! i) \<le> start b)) \<and>
     (map size_b (filter (\<lambda>b. status b = Free) (memory mgr)) = [50, 20, 80] \<and> sz = 15
        \<longrightarrow> size_b (memory mgr ! i) = 20) \<and>
     find_block_best_fit (memory mgr) sz = Some (i, memory mgr ! i) \<and>
     fst (allocate_memory mgr p sz ''best_fit'') = Some (start (memory mgr ! i)) \<and>
     memory (snd (allocate_memory mgr p sz ''best_fit'')) ! i =
       \<lparr>start = start (memory mgr ! i), size_b = sz, status = Occupied, pid = Some p\<rparr>"
proof -
  let ?m = "memory mgr"
  from assms(2) have "find_block_best_fit ?m sz \<noteq> None"
    by (simp add: find_block_best_fit_None)
  then obtain i b where f: "find_block_best_fit ?m sz = Some (i, b)" by auto
  from find_block_best_fit_Some[OF f]
  have i: "i < length ?m" and b: "b = ?m ! i" and fit: "fits sz (?m ! i)"
    and least: "\<forall>l<length ?m. fits sz (?m ! l) \<longrightarrow> size_b (?m ! i) \<le> size_b (?m ! l)"
    and first: "\<forall>l<i. fits sz (?m ! l) \<longrightarrow> size_b (?m ! i) < size_b (?m ! l)" by auto
  have least_set: "size_b (?m ! i) \<le> size_b c" if "c \<in> set ?m" "fits sz c" for c
    using that least by (auto simp: in_set_conv_nth)
  have tie_index: "i \<le> l"
    if "l < length ?m" "fits sz (?m ! l)" "size_b (?m ! l) - sz = size_b (?m ! i) - sz" for l
  proof (rule ccontr)
    assume "\<not> i \<le> l"
    then have "l < i" by simp
    with first that(2) have "size_b (?m ! i) < size_b (?m ! l)" by blast
    with that(3) show False by simp
  qed
  have tie_start: "start (?m ! i) \<le> start c"
    if s: "sorted (map start ?m)" and c: "c \<in> set ?m" "fits sz c"
      "size_b c - sz = size_b (?m ! i) - sz" for c
  proof -
    from c(1) obtain l where l: "l < length ?m" "c = ?m ! l" by (auto simp: in_set_conv_nth)
    with tie_index c have "i \<le> l" by blast
    from sorted_start_nth[OF s this l(1)] l(2) show ?thesis by simp
  qed
  have scenario: "size_b (?m ! i) = 20"
    if sc: "map size_b (filter (\<lambda>b. status b = Free) ?m) = [50, 20, 80]" "sz = 15"
  proof -
    let ?free = "filter (\<lambda>b. status b = Free) ?m"
    have mem: "x \<in> size_b ` set ?free \<longleftrightarrow> x \<in> set [50, 20, 80]" for x
      unfolding sc(1)[symmetric] by simp
    have "20 \<in> size_b ` set ?free" unfolding mem by simp
    then obtain c where c: "c \<in> set ?free" "size_b c = 20" by (metis imageE)
    then have cm: "c \<in> set ?m" and "fits sz c" using sc(2) by (simp_all add: fits_def)
    from least_set[OF this] c(2) have le: "size_b (?m ! i) \<le> 20" by simp
    have "?m ! i \<in> set ?free" using i fit by (simp add: fits_def)
    then have "size_b (?m ! i) \<in> size_b ` set ?free" by (rule imageI)
    then have "size_b (?m ! i) \<in> set [50, 20, 80]" unfolding mem .
    with le show ?thesis by simp
  qed
  have "fst (allocate_memory mgr p sz ''best_fit'') = Some (start (?m ! i))"
    using allocate_memory_found[OF assms(1) find_block_func_best_fit f] b by simp
  moreover note allocated_block_at[OF assms(1) find_block_func_best_fit f, of p, unfolded b]
  moreover have "\<forall>c\<in>set ?m. fits sz c \<longrightarrow> size_b (?m ! i) - sz \<le> size_b c - sz"
    using least_set by simp
  moreover have "find_block_best_fit ?m sz = Some (i, ?m ! i)" using f b by simp
  moreover have "\<forall>l<length ?m.
        fits sz (?m ! l) \<and> size_b (?m ! l) - sz = size_b (?m ! i) - sz \<longrightarrow> i \<le> l"
    using tie_index by blast
  moreover have "sorted (map start ?m) \<longrightarrow>
        (\<forall>b\<in>set ?m. fits sz b \<and> size_b b - sz = size_b (?m ! i) - sz
           \<longrightarrow> start (?m ! i) \<le> start b)"
    using tie_start by blast
  moreover have "map size_b (filter (\<lambda>b. status b = Free) ?m) = [50, 20, 80] \<and> sz = 15
        \<longrightarrow> size_b (?m ! i) = 20"
    by (intro impI; elim conjE) (rule scenario)
  ultimately show ?thesis using i fit by (intro exI[of _ i]) simp
qed

theorem best_fit_selects_witness:
  "(0::int) < 15 \<and> (\<exists>b\<in>set (memory scenario_F). fits 15 b) \<and>
   find_block_best_fit (memory scenario_F) 15
     = Some (2, \<lparr>start = 60, size_b = 20, status = Free, pid = None\<rparr>)"
proof -
  have h1: "(0::int) < 15" by simp
  have h2: "\<exists>b\<in>set (memory scenario_F). fits 15 b" by (simp add: scenario_F_def fits_def)
  from best_fit_selects[OF h1 h2, of 3] obtain i where i: "i < length (memory scenario_F)"
    and sc: "map size_b (filter (\<lambda>b. status b = Free) (memory scenario_F)) = [50, 20, 80] \<and>
       (15::int) = 15 \<longrightarrow> size_b (memory scenario_F ! i) = 20"
    and f: "find_block_best_fit (memory scenario_F) 15 = Some (i, memory scenario_F ! i)"
    by blast
  have "size_b (memory scenario_F ! i) = 20" using sc by (simp add: scenario_F_def)
  with i have "i = 2"
    by (auto simp: scenario_F_def less_Suc_eq_0_disj eval_nat_numeral)
  with f h1 h2 show ?thesis by (simp add: scenario_F_def)
qed

text \<open>
  C4. When the search returns a candidate, it is a free block of the list that is large
  enough. If its size is the requested size, the block is made occupied by the given
  process where it stands, the number of blocks stays the same and its start is returned.
  If it is larger, an occupied block of the requested size at the same start and a free
  block of the remaining size right after it take its place, the number of blocks grows by
  one, and the start of the occupied block is returned.
\<close>

theorem exact_fit_or_split:
  assumes "0 < sz" and "find_block_func st = Some f" and "f (memory mgr) sz = Some (i, b)"
  shows "i < length (memory mgr) \<and> memory mgr ! i = b \<and> status b = Free \<and> sz \<le> size_b b \<and>
    (size_b b = sz \<longrightarrow>
       allocate_memory mgr p sz st =
         (Some (start b),
          mgr\<lparr>memory := (memory mgr)[i := b\<lparr>status := Occupied, pid := Some p\<rparr>]\<rparr>) \<and>
       length (memory (snd (allocate_memory mgr p sz st))) = length (memory mgr)) \<and>
    (sz < size_b b \<longrightarrow>
       allocate_memory mgr p sz st =
         (Some (start b),
          mgr\<lparr>memory := take i (memory mgr) @
            [\<lparr>start = start b, size_b = sz, status = Occupied, pid = Some p\<rparr>,
             \<lparr>start = start b + sz, size_b = size_b b - sz, status = Free, pid = None\<rparr>] @
            drop (Suc i) (memory mgr)\<rparr>) \<and>
       length (memory (snd (allocate_memory mgr p sz st))) = length (memory mgr) + 1)"
proof -
  from find_block_func_Some[OF assms(2,3)]
  have i: "i < length (memory mgr)" "memory mgr ! i = b" "status b = Free" "sz \<le> size_b b"
    by (auto simp: fits_def)
  show ?thesis
    using i by (auto simp: allocate_memory_found[OF assms])
qed

theorem exact_fit_or_split_witness:
  "allocate_memory scenario_E 1 300 ''first_fit'' =
     (Some 0, scenario_E\<lparr>memory := [\<lparr>start = 0, size_b = 300, status = Occupied, pid = Some 1\<rparr>]\<rparr>) \<and>
   allocate_memory scenario_E 1 100 ''best_fit'' =
     (Some 0, scenario_E\<lparr>memory := [\<lparr>start = 0, size_b = 100, status = Occupied, pid = Some 1\<rparr>,
                                     \<lparr>start = 100, size_b = 200, status = Free, pid = None\<rparr>]\<rparr>)"
proof -
  let ?b = "\<lparr>start = 0, size_b = 300, status = Free, pid = None\<rparr>"
  have h1: "(0::int) < 300" and h1': "(0::int) < 100" by simp_all
  have h2: "find_block_func ''first_fit'' = Some find_block_first_fit"
    and h2': "find_block_func ''best_fit'' = Some find_block_best_fit"
    by (simp_all add: find_block_func_def)
  have h3: "find_block_first_fit (memory scenario_E) 300 = Some (0, ?b)"
    by (simp add: find_block_first_fit_def scenario_E_def)
  have h3': "find_block_best_fit (memory scenario_E) 100 = Some (0, ?b)"
    by (simp add: find_block_best_fit_def scenario_E_def)
  from exact_fit_or_split[OF h1 h2 h3, of 1] exact_fit_or_split[OF h1' h2' h3', of 1]
  show ?thesis by (simp add: scenario_E_def)
qed

text \<open>
  C5. \<^verbatim>\<open>allocate_memory\<close> returns no address exactly when the requested size is not positive,
  or the strategy is neither \<^verbatim>\<open>first_fit\<close> nor \<^verbatim>\<open>best_fit\<close>, or no free block is large enough;
  and then the manager is left as it was.
\<close>

theorem allocate_failure:
  "(fst (allocate_memory mgr p sz st) = None \<longleftrightarrow>
      sz \<le> 0 \<or> (st \<noteq> ''first_fit'' \<and> st \<noteq> ''best_fit'') \<or>
      \<not> (\<exists>b\<in>set (memory mgr). status b = Free \<and> sz \<le> size_b b)) \<and>
   (fst (allocate_memory mgr p sz st) = None \<longrightarrow> allocate_memory mgr p sz st = (None, mgr))"
proof -
  have "fst (allocate_memory mgr p sz st) = None \<longrightarrow> allocate_memory mgr p sz st = (None, mgr)"
    using allocate_memory_fails_unchanged[of mgr p sz st]
    by (metis prod.collapse)
  then show ?thesis
    unfolding allocate_memory_fails_iff find_block_func_eq_None by (simp add: fits_def)
qed

theorem allocate_failure_witness:
  "allocate_memory scenario_E 1 310 ''first_fit'' = (None, scenario_E) \<and>
   allocate_memory scenario_E 1 0 ''best_fit'' = (None, scenario_E) \<and>
   allocate_memory scenario_E 1 10 ''worst_fit'' = (None, scenario_E)"
proof -
  have "fst (allocate_memory scenario_E 1 310 ''first_fit'') = None"
    using allocate_failure[of scenario_E 1 310 "''first_fit''"] by (simp add: scenario_E_def)
  moreover have "fst (allocate_memory scenario_E 1 0 ''best_fit'') = None"
    using allocate_failure[of scenario_E 1 0 "''best_fit''"] by simp
  moreover have "fst (allocate_memory scenario_E 1 10 ''worst_fit'') = None"
    using allocate_failure[of scenario_E 1 10 "''worst_fit''"] by simp
  ultimately show ?thesis
    using allocate_failure[of scenario_E 1 310 "''first_fit''"]
      allocate_failure[of scenario_E 1 0 "''best_fit''"]
      allocate_failure[of scenario_E 1 10 "''worst_fit''"] by blast
qed

text \<open>
  C10. For a positive request, \<^verbatim>\<open>first_fit\<close> succeeds exactly when \<^verbatim>\<open>best_fit\<close> succeeds on the
  same state: each succeeds exactly when some free block is large enough.
\<close>

theorem strategy_independent_success:
  assumes "0 < sz"
  shows "(fst (allocate_memory mgr p sz ''first_fit'') \<noteq> None \<longleftrightarrow>
          fst (allocate_memory mgr p sz ''best_fit'') \<noteq> None) \<and>
         (fst (allocate_memory mgr p sz ''first_fit'') \<noteq> None \<longleftrightarrow>
          (\<exists>b\<in>set (memory mgr). status b = Free \<and> sz \<le> size_b b)) \<and>
         (fst (allocate_memory mgr p sz ''best_fit'') \<noteq> None \<longleftrightarrow>
          (\<exists>b\<in>set (memory mgr). status b = Free \<and> sz \<le> size_b b))"
  using assms unfolding allocate_memory_fails_iff by (simp add: fits_def)

theorem strategy_independent_success_witness:
  "(0::int) < 310 \<and>
   fst (allocate_memory scenario_E 1 310 ''first_fit'') = None \<and>
   fst (allocate_memory scenario_E 1 310 ''best_fit'') = None"
proof -
  have h: "(0::int) < 310" by simp
  from strategy_independent_success[OF h, of scenario_E 1] show ?thesis
    by (simp add: scenario_E_def)
qed



text \<open>
  C9. Running \<^verbatim>\<open>_coalesce_free_blocks\<close> twice gives the same manager as running it once, on
  every block list in ascending order of \<open>start\<close>, which is how the manager keeps its list:
  every state reached from a constructed manager is in that order, and so is the state
  that \<^verbatim>\<open>deallocate_memory\<close> hands to the pass, a reached state with one block set free.
\<close>

theorem coalesce_idempotent:
  "(sorted (map start (memory mgr)) \<longrightarrow>
      coalesce_free_blocks (coalesce_free_blocks mgr) = coalesce_free_blocks mgr) \<and>
   (MemoryManager n = Some mgr0 \<longrightarrow>
      sorted (map start (memory (run mgr0 reqs))) \<and>
      coalesce_free_blocks (coalesce_free_blocks (run mgr0 reqs))
        = coalesce_free_blocks (run mgr0 reqs) \<and>
      coalesce_free_blocks (coalesce_free_blocks
          ((run mgr0 reqs)\<lparr>memory := (memory (run mgr0 reqs))
             [i := (memory (run mgr0 reqs) ! i)\<lparr>status := Free, pid := None\<rparr>]\<rparr>))
        = coalesce_free_blocks
          ((run mgr0 reqs)\<lparr>memory := (memory (run mgr0 reqs))
             [i := (memory (run mgr0 reqs) ! i)\<lparr>status := Free, pid := None\<rparr>]\<rparr>))"
proof -
  have idem: "coalesce_free_blocks (coalesce_free_blocks x) = coalesce_free_blocks x"
    if ordered: "sorted (map start (memory x))" for x
  proof -
    have "sorted (map start (coalesce_scan (memory x)))"
      using ordered by (rule sorted_coalesce_scan)
    then show ?thesis
      by (simp add: coalesce_sorted[OF ordered] coalesce_sorted coalesce_scan_idem)
  qed
  have reach: "sorted (map start (memory (run mgr0 reqs))) \<and>
      coalesce_free_blocks (coalesce_free_blocks (run mgr0 reqs))
        = coalesce_free_blocks (run mgr0 reqs) \<and>
      coalesce_free_blocks (coalesce_free_blocks
          ((run mgr0 reqs)\<lparr>memory := (memory (run mgr0 reqs))
             [i := (memory (run mgr0 reqs) ! i)\<lparr>status := Free, pid := None\<rparr>]\<rparr>))
        = coalesce_free_blocks
          ((run mgr0 reqs)\<lparr>memory := (memory (run mgr0 reqs))
             [i := (memory (run mgr0 reqs) ! i)\<lparr>status := Free, pid := None\<rparr>]\<rparr>)"
    if m0: "MemoryManager n = Some mgr0"
  proof -
    let ?s = "run mgr0 reqs"
    let ?m' = "(memory ?s)[i := (memory ?s ! i)\<lparr>status := Free, pid := None\<rparr>]"
    have "consistent ?s"
      by (rule consistent_run) (rule consistent_MemoryManager[OF m0])
    then have "tiles_from 0 (memory ?s)" by (simp add: consistent_def)
    then have s: "sorted (map start (memory ?s))"
      by (intro strict_sorted_imp_sorted tiles_strict_sorted)
    have "map start ?m' = map start (memory ?s)" by (rule starts_update) simp
    with s have s': "sorted (map start (memory (?s\<lparr>memory := ?m'\<rparr>)))" by simp
    from s idem[OF s] idem[OF s'] show ?thesis by (intro conjI)
  qed
  from idem[of mgr] reach show ?thesis by blast
qed

theorem coalesce_idempotent_witness:
  "sorted (map start (memory fragmented)) \<and>
   coalesce_free_blocks fragmented = fragmented\<lparr>memory :=
     [\<lparr>start = 0, size_b = 100, status = Free, pid = None\<rparr>,
      \<lparr>start = 100, size_b = 50, status = Occupied, pid = Some 1\<rparr>,
      \<lparr>start = 150, size_b = 50, status = Free, pid = None\<rparr>]\<rparr> \<and>
   coalesce_free_blocks (coalesce_free_blocks fragmented) = coalesce_free_blocks fragmented \<and>
   MemoryManager 300 = Some scenario_E \<and>
   coalesce_free_blocks (coalesce_free_blocks
       (two_owners\<lparr>memory := (memory two_owners)
          [Suc 0 := (memory two_owners ! Suc 0)\<lparr>status := Free, pid := None\<rparr>]\<rparr>))
     = coalesce_free_blocks
       (two_owners\<lparr>memory := (memory two_owners)
          [Suc 0 := (memory two_owners ! Suc 0)\<lparr>status := Free, pid := None\<rparr>]\<rparr>) \<and>
   coalesce_free_blocks
       (two_owners\<lparr>memory := (memory two_owners)
          [Suc 0 := (memory two_owners ! Suc 0)\<lparr>status := Free, pid := None\<rparr>]\<rparr>)
     = scenario_E\<lparr>memory :=
         [\<lparr>start = 0, size_b = 100, status = Occupied, pid = Some 1\<rparr>,
          \<lparr>start = 100, size_b = 200, status = Free, pid = None\<rparr>]\<rparr>"
proof -
  have h: "sorted (map start (memory fragmented))" by (simp add: fragmented_def)
  have c: "coalesce_free_blocks fragmented = fragmented\<lparr>memory :=
     [\<lparr>start = 0, size_b = 100, status = Free, pid = None\<rparr>,
      \<lparr>start = 100, size_b = 50, status = Occupied, pid = Some 1\<rparr>,
      \<lparr>start = 150, size_b = 50, status = Free, pid = None\<rparr>]\<rparr>"
    by (simp add: fragmented_def coalesce_free_blocks_def)
  have h1: "MemoryManager 300 = Some scenario_E"
    by (simp add: MemoryManager_def scenario_E_def)
  have d: "coalesce_free_blocks
       (two_owners\<lparr>memory := (memory two_owners)
          [Suc 0 := (memory two_owners ! Suc 0)\<lparr>status := Free, pid := None\<rparr>]\<rparr>)
     = scenario_E\<lparr>memory :=
         [\<lparr>start = 0, size_b = 100, status = Occupied, pid = Some 1\<rparr>,
          \<lparr>start = 100, size_b = 200, status = Free, pid = None\<rparr>]\<rparr>"
    by (simp add: two_owners_memory scenario_E_def coalesce_free_blocks_def)
  have a: "coalesce_free_blocks (coalesce_free_blocks fragmented) = coalesce_free_blocks fragmented"
    using coalesce_idempotent[THEN conjunct1, of fragmented] h by blast
  have b: "coalesce_free_blocks (coalesce_free_blocks
       (two_owners\<lparr>memory := (memory two_owners)
          [Suc 0 := (memory two_owners ! Suc 0)\<lparr>status := Free, pid := None\<rparr>]\<rparr>))
     = coalesce_free_blocks
       (two_owners\<lparr>memory := (memory two_owners)
          [Suc 0 := (memory two_owners ! Suc 0)\<lparr>status := Free, pid := None\<rparr>]\<rparr>)"
    using coalesce_idempotent[THEN conjunct2, of 300 scenario_E
        "[Allocate 1 100 ''first_fit'', Allocate 2 100 ''first_fit'']" "Suc 0"] h1
    unfolding two_owners_def by blast
  from h c a h1 b d show ?thesis by (intro conjI)
qed

text \<open>
  C3, as amended. Starting from a constructed manager, take any sequence of calls in which
  no allocation succeeds for a process that holds a block at that moment. Then after each
  of its calls (after the first \<open>k\<close> of them, for any \<open>k\<close>) every process occupies at most
  one block.
\<close>

theorem no_double_ownership:
  assumes "MemoryManager n = Some mgr0" and "one_block_each mgr0 reqs"
  shows "owner_count p (memory (run mgr0 (take k reqs))) \<le> 1"
proof -
  from assms(1) have "\<forall>q. owner_count q (memory mgr0) \<le> 1"
    by (auto simp: MemoryManager_def held_by_def split: if_splits)
  moreover from assms(2) have "one_block_each mgr0 (take k reqs)"
    by (rule one_block_each_take)
  ultimately show ?thesis by (rule one_owner_run)
qed

theorem no_double_ownership_witness:
  "MemoryManager 300 = Some scenario_E \<and>
   one_block_each scenario_E
     [Allocate 1 100 ''first_fit'', Allocate 2 50 ''best_fit'', Deallocate 1,
      Allocate 1 20 ''best_fit''] \<and>
   owner_count 1 (memory (run scenario_E
     [Allocate 1 100 ''first_fit'', Allocate 2 50 ''best_fit'', Deallocate 1,
      Allocate 1 20 ''best_fit''])) \<le> 1"
proof -
  have h1: "MemoryManager 300 = Some scenario_E"
    by (simp add: MemoryManager_def scenario_E_def)
  have h2: "one_block_each scenario_E
     [Allocate 1 100 ''first_fit'', Allocate 2 50 ''best_fit'', Deallocate 1,
      Allocate 1 20 ''best_fit'']"
    by (simp add: scenario_E_def allocate_memory_def deallocate_memory_def
        find_block_func_def find_block_first_fit_def find_block_best_fit_def
        coalesce_free_blocks_def held_by_def)
  from no_double_ownership[OF h1 h2, of 1 4] h1 h2 show ?thesis by simp
qed

text \<open>
  C3 as stated fails: \<^verbatim>\<open>allocate_memory\<close> does not look at the owners in the list, so two
  allocations for process 1 leave it with two occupied blocks.
\<close>

theorem double_ownership_reachable:
  "MemoryManager 300 = Some scenario_E \<and>
   memory (run scenario_E [Allocate 1 100 ''first_fit'', Allocate 1 100 ''first_fit'']) =
     [\<lparr>start = 0, size_b = 100, status = Occupied, pid = Some 1\<rparr>,
      \<lparr>start = 100, size_b = 100, status = Occupied, pid = Some 1\<rparr>,
      \<lparr>start = 200, size_b = 100, status = Free, pid = None\<rparr>] \<and>
   owner_count 1 (memory (run scenario_E
     [Allocate 1 100 ''first_fit'', Allocate 1 100 ''first_fit''])) = 2"
  by (simp add: MemoryManager_def scenario_E_def run_def allocate_memory_def
      find_block_func_def find_block_first_fit_def held_by_def)

text \<open>
  C7, as amended. In a state reached from a constructed manager, let an allocation for an
  owner succeed with address \<open>A\<close>, every block that the owner held before lying above
  \<open>A\<close> (in particular when it held none). Then releasing the owner's memory succeeds and
  gives back the state from before the allocation, and allocating the same size with the
  same strategy again, for any owner, returns \<open>A\<close>.
\<close>

theorem round_trip:
  assumes "MemoryManager n = Some mgr0"
    and "allocate_memory (run mgr0 reqs) p sz st = (Some A, mgr1)"
    and "\<forall>b\<in>set (memory (run mgr0 reqs)). held_by p b \<longrightarrow> A < start b"
  shows "deallocate_memory mgr1 p = (True, run mgr0 reqs) \<and>
         fst (allocate_memory (snd (deallocate_memory mgr1 p)) p' sz st) = Some A"
proof -
  have "consistent (run mgr0 reqs)"
    by (rule consistent_run) (rule consistent_MemoryManager[OF assms(1)])
  from allocate_then_deallocate[OF this assms(2,3)]
  have d: "deallocate_memory mgr1 p = (True, run mgr0 reqs)" .
  have "fst (allocate_memory (run mgr0 reqs) p' sz st) = Some A"
    using assms(2) allocate_address_any_owner[of "run mgr0 reqs" p' sz st p] by simp
  with d show ?thesis by simp
qed

theorem round_trip_witness:
  "MemoryManager 300 = Some scenario_E \<and>
   fst (allocate_memory hole_below 1 100 ''best_fit'') = Some 0 \<and>
   deallocate_memory (snd (allocate_memory hole_below 1 100 ''best_fit'')) 1 = (True, hole_below) \<and>
   fst (allocate_memory (snd (deallocate_memory
          (snd (allocate_memory hole_below 1 100 ''best_fit'')) 1)) 1 100 ''best_fit'') = Some 0"
proof -
  have h1: "MemoryManager 300 = Some scenario_E"
    by (simp add: MemoryManager_def scenario_E_def)
  have a: "fst (allocate_memory hole_below 1 100 ''best_fit'') = Some 0"
    by (simp add: hole_below_memory scenario_E_def allocate_memory_def find_block_func_def
        find_block_best_fit_def)
  then have h2: "allocate_memory (run scenario_E
       [Allocate 3 100 ''first_fit'', Allocate 2 100 ''first_fit'', Allocate 1 100 ''first_fit'',
        Deallocate 3]) 1 100 ''best_fit''
     = (Some 0, snd (allocate_memory hole_below 1 100 ''best_fit''))"
    unfolding hole_below_def by (metis prod.collapse)
  have h3': "\<forall>b\<in>set (memory hole_below). held_by 1 b \<longrightarrow> 0 < start b"
    by (simp add: hole_below_memory scenario_E_def held_by_def)
  then have h3: "\<forall>b\<in>set (memory (run scenario_E
       [Allocate 3 100 ''first_fit'', Allocate 2 100 ''first_fit'', Allocate 1 100 ''first_fit'',
        Deallocate 3])). held_by 1 b \<longrightarrow> 0 < start b"
    unfolding hole_below_def .
  from round_trip[OF h1 h2 h3, of 1] h1 a show ?thesis
    unfolding hole_below_def by blast
qed

text \<open>
  C7 as stated fails when the owner holds a block below the new one: \<^verbatim>\<open>deallocate_memory\<close>
  frees the first block of the owner in list order, here the one at 0 and not the one just
  allocated at 200, and the next first-fit allocation of 50 units lands at 0.
\<close>

theorem round_trip_fails_for_second_block:
  "MemoryManager 300 = Some scenario_E \<and>
   fst (allocate_memory two_owners 1 50 ''first_fit'') = Some 200 \<and>
   fst (deallocate_memory (snd (allocate_memory two_owners 1 50 ''first_fit'')) 1) \<and>
   fst (allocate_memory (snd (deallocate_memory
          (snd (allocate_memory two_owners 1 50 ''first_fit'')) 1)) 1 50 ''first_fit'') = Some 0"
  by (simp add: MemoryManager_def two_owners_memory scenario_E_def allocate_memory_def
      deallocate_memory_def coalesce_free_blocks_def find_block_func_def find_block_first_fit_def)

end
